theory Spec2Isabelle
  imports Complex_Main "HOL-Library.Log_Nat"
begin

section \<open>JavaScript values and plain objects\<close>

text \<open>
  The store of \<^verbatim>\<open>src/unnamed/part_000\<close> keeps plain JavaScript objects. A value of
  type \<^verbatim>\<open>unknown\<close> is a \<open>jsval\<close>; a \<^verbatim>\<open>Record<string, T>\<close> is an association list
  in property (insertion) order, which is the order \<^verbatim>\<open>Object.values\<close> and
  \<^verbatim>\<open>Object.entries\<close> enumerate string keys that are not array indices (the ids of
  this program are UUIDs). Dates read from the clock are their \<^verbatim>\<open>getTime()\<close> value, milliseconds as \<open>int\<close>;
  a computed date is a \<open>jsdate\<close>.
\<close>

datatype jsval =
    JUndefined
  | JNull
  | JBool bool
  | JNum int
  | JStr string
  | JArr "jsval list"
  | JObj "(string \<times> jsval) list"

type_synonym obj = "(string \<times> jsval) list"

text \<open>\<^verbatim>\<open>r[k]\<close>: the property, \<open>None\<close> when the key is absent.\<close>

fun rec_get :: "(string \<times> 'v) list \<Rightarrow> string \<Rightarrow> 'v option" where
  "rec_get [] k = None"
| "rec_get ((k', v) # r) k = (if k' = k then Some v else rec_get r k)"

text \<open>\<^verbatim>\<open>r[k] = v\<close>: an existing key keeps its place, a new key goes last.\<close>

fun rec_set :: "string \<Rightarrow> 'v \<Rightarrow> (string \<times> 'v) list \<Rightarrow> (string \<times> 'v) list" where
  "rec_set k v [] = [(k, v)]"
| "rec_set k v ((k', v') # r) = (if k' = k then (k, v) # r else (k', v') # rec_set k v r)"

text \<open>\<^verbatim>\<open>delete r[k]\<close>.\<close>

definition rec_delete :: "string \<Rightarrow> (string \<times> 'v) list \<Rightarrow> (string \<times> 'v) list" where
  "rec_delete k r = filter (\<lambda>kv. fst kv \<noteq> k) r"

text \<open>\<^verbatim>\<open>Object.values(r)\<close>.\<close>

definition rec_values :: "(string \<times> 'v) list \<Rightarrow> 'v list" where
  "rec_values r = map snd r"

text \<open>
  \<^verbatim>\<open>Object.assign(target, source)\<close> for one source: every own property of the source is
  assigned to the target in the source's order. A source that is \<^verbatim>\<open>undefined\<close> is skipped
  (\<open>object_assign_opt\<close>).
\<close>

fun object_assign :: "(string \<times> 'v) list \<Rightarrow> (string \<times> 'v) list \<Rightarrow> (string \<times> 'v) list" where
  "object_assign target [] = target"
| "object_assign target ((k, v) # src) = object_assign (rec_set k v target) src"

definition object_assign_opt ::
  "(string \<times> 'v) list \<Rightarrow> (string \<times> 'v) list option \<Rightarrow> (string \<times> 'v) list" where
  "object_assign_opt target src = (case src of None \<Rightarrow> target | Some s \<Rightarrow> object_assign target s)"

text \<open>\<^verbatim>\<open>a ?? b\<close> on a value that may be \<^verbatim>\<open>undefined\<close> (absent) or \<^verbatim>\<open>null\<close>.\<close>

definition is_nullish :: "jsval option \<Rightarrow> bool" where
  "is_nullish v = (v = None \<or> v = Some JUndefined \<or> v = Some JNull)"

section \<open>The data model\<close>

datatype ThreadStatus = Idle | Busy | ThreadInterrupted | ThreadError

datatype RunStatus = Pending | Running | RunError | Success | Timeout | Interrupted

datatype MultitaskStrategy = Reject | Rollback | Interrupt | Enqueue

datatype OnConflictBehavior = Raise | DoNothing

datatype IfNotExists = Create | RejectMissing

text \<open>
  \<^verbatim>\<open>RunnableConfig\<close>: four optional properties. \<^verbatim>\<open>Object.assign\<close> over configs
  (\<open>assign_config\<close>) lets a property that the later config has override the earlier one.
\<close>

record RunnableConfig =
  tags :: "string list option"
  recursion_limit :: "int option"
  configurable :: "obj option"
  cfg_metadata :: "obj option"

definition empty_config :: RunnableConfig where
  "empty_config = \<lparr>tags = None, recursion_limit = None, configurable = None, cfg_metadata = None\<rparr>"

definition or_else :: "'a option \<Rightarrow> 'a option \<Rightarrow> 'a option" where
  "or_else later earlier = (case later of Some x \<Rightarrow> Some x | None \<Rightarrow> earlier)"

definition assign_config :: "RunnableConfig \<Rightarrow> RunnableConfig \<Rightarrow> RunnableConfig" where
  "assign_config target src =
     \<lparr>tags = or_else (tags src) (tags target),
      recursion_limit = or_else (recursion_limit src) (recursion_limit target),
      configurable = or_else (configurable src) (configurable target),
      cfg_metadata = or_else (cfg_metadata src) (cfg_metadata target)\<rparr>"

text \<open>
  A JavaScript number that holds a version: \<^verbatim>\<open>Math.max()\<close> of no arguments is
  \<^verbatim>\<open>-Infinity\<close>, and \<^verbatim>\<open>-Infinity + 1\<close> is \<^verbatim>\<open>-Infinity\<close>.
\<close>

datatype jsnum = NegInfinity | Fin int

record Assistant =
  a_name :: "string option"
  a_assistant_id :: string
  a_graph_id :: string
  a_created_at :: int
  a_updated_at :: int
  a_version :: jsnum
  a_config :: RunnableConfig
  a_metadata :: obj

record AssistantVersion =
  v_assistant_id :: string
  v_version :: jsnum
  v_graph_id :: string
  v_config :: RunnableConfig
  v_metadata :: obj
  v_created_at :: int
  v_name :: "string option"

record Thread =
  t_thread_id :: string
  t_created_at :: int
  t_updated_at :: int
  t_metadata :: "obj option"
  t_config :: "RunnableConfig option"
  t_status :: ThreadStatus
  t_values :: "obj option"
  t_interrupts :: "obj option"

text \<open>
  \<^verbatim>\<open>RunKwargs\<close>: the inner \<^verbatim>\<open>config\<close>, and every other property (input, command,
  stream modes, ...) kept as it came.
\<close>

record RunKwargs =
  kw_config :: "RunnableConfig option"
  kw_rest :: obj

text \<open>
  A \<^verbatim>\<open>Date\<close> is its time value in milliseconds, or is an Invalid Date (time value
  \<^verbatim>\<open>NaN\<close>). The dates the program takes from the clock (\<^verbatim>\<open>new Date()\<close>) are valid
  and are kept as \<open>int\<close>; the \<^verbatim>\<open>created_at\<close> of a run is computed, and can be invalid.
  A comparison with an Invalid Date is false. \<open>getTime\<close> is read of valid dates only (of
  the runs the picker has kept after its filter); on an Invalid Date, where JavaScript has
  \<^verbatim>\<open>NaN\<close>, it is given the value 0.
\<close>

datatype jsdate = InvalidDate | Date int

fun date_before :: "jsdate \<Rightarrow> int \<Rightarrow> bool" where
  "date_before (Date t) now = (t < now)"
| "date_before InvalidDate now = False"

fun getTime :: "jsdate \<Rightarrow> int" where
  "getTime (Date t) = t"
| "getTime InvalidDate = 0"

record Run =
  r_run_id :: string
  r_thread_id :: string
  r_assistant_id :: string
  r_created_at :: jsdate
  r_updated_at :: int
  r_status :: RunStatus
  r_metadata :: obj
  r_kwargs :: RunKwargs
  r_multitask_strategy :: MultitaskStrategy

record Store =
  runs :: "(string \<times> Run) list"
  threads :: "(string \<times> Thread) list"
  assistants :: "(string \<times> Assistant) list"
  assistant_versions :: "AssistantVersion list"
  retry_counter :: "(string \<times> int) list"

definition empty_store :: Store where
  "empty_store = \<lparr>runs = [], threads = [], assistants = [], assistant_versions = [], retry_counter = []\<rparr>"

text \<open>A thrown \<^verbatim>\<open>HTTPException(status, {message})\<close>, or a plain \<^verbatim>\<open>Error(message)\<close>.\<close>

datatype error = HTTPException nat string | PlainError string

section \<open>The assistant store\<close>

record AssistantPutOptions =
  ap_config :: "RunnableConfig option"
  ap_graph_id :: string
  ap_metadata :: "obj option"
  ap_if_exists :: OnConflictBehavior
  ap_name :: "string option"

text \<open>\<^verbatim>\<open>options.name || options.graph_id\<close>: an absent or empty name is falsy.\<close>

definition name_or :: "string option \<Rightarrow> string \<Rightarrow> string" where
  "name_or n g = (case n of None \<Rightarrow> g | Some s \<Rightarrow> (if s = [] then g else s))"

definition Assistants_put ::
  "string \<Rightarrow> AssistantPutOptions \<Rightarrow> int \<Rightarrow> Store \<Rightarrow> (error + Assistant) \<times> Store" where
  "Assistants_put assistantId options now STORE =
     (case rec_get (assistants STORE) assistantId of
        Some existing \<Rightarrow>
          (if ap_if_exists options = Raise
           then (Inl (HTTPException 409 ''Assistant already exists''), STORE)
           else (Inr existing, STORE))
      | None \<Rightarrow>
          (let a = \<lparr>a_name = Some (name_or (ap_name options) (ap_graph_id options)),
                    a_assistant_id = assistantId,
                    a_graph_id = ap_graph_id options,
                    a_created_at = now,
                    a_updated_at = now,
                    a_version = Fin 1,
                    a_config = (case ap_config options of None \<Rightarrow> empty_config | Some c \<Rightarrow> c),
                    a_metadata = (case ap_metadata options of None \<Rightarrow> [] | Some m \<Rightarrow> m)\<rparr>;
               ver = \<lparr>v_assistant_id = assistantId,
                      v_version = Fin 1,
                      v_graph_id = ap_graph_id options,
                      v_config = (case ap_config options of None \<Rightarrow> empty_config | Some c \<Rightarrow> c),
                      v_metadata = (case ap_metadata options of None \<Rightarrow> [] | Some m \<Rightarrow> m),
                      v_created_at = now,
                      v_name = Some (name_or (ap_name options) (ap_graph_id options))\<rparr>;
               STORE1 = STORE\<lparr>assistants := rec_set assistantId a (assistants STORE)\<rparr>;
               STORE2 = STORE1\<lparr>assistant_versions := assistant_versions STORE1 @ [ver]\<rparr>
           in (case rec_get (assistants STORE2) assistantId of
                 Some stored \<Rightarrow> (Inr stored, STORE2)
               | None \<Rightarrow> (Inr a, STORE2))))"

text \<open>
  The options of \<^verbatim>\<open>Assistants.patch\<close>; the call without options is the record of four
  \<open>None\<close>.
\<close>

record AssistantPatchOptions =
  pp_config :: "RunnableConfig option"
  pp_graph_id :: "string option"
  pp_metadata :: "obj option"
  pp_name :: "string option"

text \<open>\<^verbatim>\<open>Math.max(...xs)\<close> and \<^verbatim>\<open>x + 1\<close> on version numbers.\<close>

fun js_max2 :: "jsnum \<Rightarrow> jsnum \<Rightarrow> jsnum" where
  "js_max2 NegInfinity y = y"
| "js_max2 x NegInfinity = x"
| "js_max2 (Fin a) (Fin b) = Fin (max a b)"

definition math_max :: "jsnum list \<Rightarrow> jsnum" where
  "math_max xs = fold js_max2 xs NegInfinity"

fun js_add1 :: "jsnum \<Rightarrow> jsnum" where
  "js_add1 NegInfinity = NegInfinity"
| "js_add1 (Fin n) = Fin (n + 1)"

text \<open>
  \<^verbatim>\<open>Assistants.patch\<close> mutates the stored assistant in place, computes the new version
  from the version records of this assistant id, and pushes a new record.
\<close>

definition Assistants_patch ::
  "string \<Rightarrow> AssistantPatchOptions \<Rightarrow> int \<Rightarrow> Store \<Rightarrow> (error + Assistant) \<times> Store" where
  "Assistants_patch assistantId options now STORE =
     (case rec_get (assistants STORE) assistantId of
        None \<Rightarrow> (Inl (HTTPException 404 ''Assistant not found''), STORE)
      | Some assistant \<Rightarrow>
          (let metadata = (case pp_metadata options of
                             Some m \<Rightarrow> Some (object_assign (object_assign [] (a_metadata assistant)) m)
                           | None \<Rightarrow> None);
               a1 = (case pp_graph_id options of Some g \<Rightarrow> assistant\<lparr>a_graph_id := g\<rparr> | None \<Rightarrow> assistant);
               a2 = (case pp_config options of Some c \<Rightarrow> a1\<lparr>a_config := c\<rparr> | None \<Rightarrow> a1);
               a3 = (case pp_name options of Some n \<Rightarrow> a2\<lparr>a_name := Some n\<rparr> | None \<Rightarrow> a2);
               a4 = (case metadata of Some m \<Rightarrow> a3\<lparr>a_metadata := m\<rparr> | None \<Rightarrow> a3);
               a5 = a4\<lparr>a_updated_at := now\<rparr>;
               newVersion = js_add1 (math_max (map v_version
                              (filter (\<lambda>v. v_assistant_id v = assistantId) (assistant_versions STORE))));
               a6 = a5\<lparr>a_version := newVersion\<rparr>;
               newVersionEntry =
                 \<lparr>v_assistant_id = assistantId,
                  v_version = newVersion,
                  v_graph_id = (case pp_graph_id options of Some g \<Rightarrow> g | None \<Rightarrow> a_graph_id a6),
                  v_config = (case pp_config options of Some c \<Rightarrow> c | None \<Rightarrow> a_config a6),
                  v_metadata = (case metadata of Some m \<Rightarrow> m | None \<Rightarrow> a_metadata a6),
                  v_created_at = now,
                  v_name = (case pp_name options of Some n \<Rightarrow> Some n | None \<Rightarrow> a_name a6)\<rparr>
           in (Inr a6,
               STORE\<lparr>assistants := rec_set assistantId a6 (assistants STORE),
                      assistant_versions := assistant_versions STORE @ [newVersionEntry]\<rparr>)))"

text \<open>
  \<^verbatim>\<open>Assistants.delete\<close> removes the assistant, its version records, and every run of
  the assistant (each deleted under the run's own \<^verbatim>\<open>run_id\<close>).
\<close>

definition Assistants_delete :: "string \<Rightarrow> Store \<Rightarrow> (error + string list) \<times> Store" where
  "Assistants_delete assistantId STORE =
     (case rec_get (assistants STORE) assistantId of
        None \<Rightarrow> (Inl (HTTPException 404 ''Assistant not found''), STORE)
      | Some assistant \<Rightarrow>
          (Inr [a_assistant_id assistant],
           STORE\<lparr>assistants := rec_delete assistantId (assistants STORE),
                  assistant_versions :=
                    filter (\<lambda>v. v_assistant_id v \<noteq> assistantId) (assistant_versions STORE),
                  runs := fold (\<lambda>run rs. if r_assistant_id run = assistantId
                                           then rec_delete (r_run_id run) rs else rs)
                               (rec_values (runs STORE)) (runs STORE)\<rparr>))"

text \<open>
  \<^verbatim>\<open>Assistants.setLatest\<close> copies the first version record with this id and version
  into the live assistant.
\<close>

definition Assistants_setLatest ::
  "string \<Rightarrow> jsnum \<Rightarrow> int \<Rightarrow> Store \<Rightarrow> (error + Assistant) \<times> Store" where
  "Assistants_setLatest assistantId version now STORE =
     (case rec_get (assistants STORE) assistantId of
        None \<Rightarrow> (Inl (HTTPException 404 ''Assistant not found''), STORE)
      | Some assistant \<Rightarrow>
          (case find (\<lambda>v. v_assistant_id v = assistantId \<and> v_version v = version)
                     (assistant_versions STORE) of
             None \<Rightarrow> (Inl (HTTPException 404 ''Assistant version not found''), STORE)
           | Some assistantVersion \<Rightarrow>
               (let a = assistant\<lparr>a_config := v_config assistantVersion,
                                  a_metadata := v_metadata assistantVersion,
                                  a_version := v_version assistantVersion,
                                  a_name := v_name assistantVersion,
                                  a_updated_at := now\<rparr>
                in (Inr a, STORE\<lparr>assistants := rec_set assistantId a (assistants STORE)\<rparr>))))"

text \<open>A sequence of calls on the assistant store, run from the empty store.\<close>

datatype assistant_op =
    OpPut string AssistantPutOptions int
  | OpPatch string AssistantPatchOptions int
  | OpSetLatest string jsnum int
  | OpDelete string

fun apply_assistant_op :: "assistant_op \<Rightarrow> Store \<Rightarrow> Store" where
  "apply_assistant_op (OpPut i opts now) S = snd (Assistants_put i opts now S)"
| "apply_assistant_op (OpPatch i opts now) S = snd (Assistants_patch i opts now S)"
| "apply_assistant_op (OpSetLatest i v now) S = snd (Assistants_setLatest i v now S)"
| "apply_assistant_op (OpDelete i) S = snd (Assistants_delete i S)"

definition run_assistant_ops :: "assistant_op list \<Rightarrow> Store" where
  "run_assistant_ops ops = fold apply_assistant_op ops empty_store"

text \<open>
  The invariant of the assistant store: version numbers are finite, every assistant is
  stored under its own id, and has a version record with its id and version.
\<close>

definition is_fin :: "jsnum \<Rightarrow> bool" where
  "is_fin x = (x \<noteq> NegInfinity)"

definition has_version :: "Store \<Rightarrow> string \<Rightarrow> jsnum \<Rightarrow> bool" where
  "has_version S i n = (\<exists>v \<in> set (assistant_versions S). v_assistant_id v = i \<and> v_version v = n)"

definition versions_inv :: "Store \<Rightarrow> bool" where
  "versions_inv S =
     ((\<forall>v \<in> set (assistant_versions S). is_fin (v_version v)) \<and>
      (\<forall>(k, a) \<in> set (assistants S). a_assistant_id a = k \<and> has_version S k (a_version a)))"

text \<open>Sample options for concrete runs.\<close>

definition demo_put_options :: AssistantPutOptions where
  "demo_put_options = \<lparr>ap_config = None, ap_graph_id = ''agent'', ap_metadata = None,
                        ap_if_exists = DoNothing, ap_name = None\<rparr>"

definition demo_patch_options :: AssistantPatchOptions where
  "demo_patch_options = \<lparr>pp_config = None, pp_graph_id = None,
                          pp_metadata = Some [(''k'', JNum 1)], pp_name = None\<rparr>"

section \<open>The thread store\<close>

record ThreadPutOptions =
  tp_metadata :: "obj option"
  tp_if_exists :: OnConflictBehavior

definition Threads_put ::
  "string \<Rightarrow> ThreadPutOptions option \<Rightarrow> int \<Rightarrow> Store \<Rightarrow> (error + Thread) \<times> Store" where
  "Threads_put threadId options now STORE =
     (case rec_get (threads STORE) threadId of
        Some existing \<Rightarrow>
          (if map_option tp_if_exists options = Some Raise
           then (Inl (HTTPException 409 ''Thread already exists''), STORE)
           else (Inr existing, STORE))
      | None \<Rightarrow>
          (let t = \<lparr>t_thread_id = threadId,
                    t_created_at = now,
                    t_updated_at = now,
                    t_metadata = Some (case Option.bind options tp_metadata of None \<Rightarrow> [] | Some m \<Rightarrow> m),
                    t_config = Some empty_config,
                    t_status = Idle,
                    t_values = None,
                    t_interrupts = None\<rparr>;
               STORE1 = STORE\<lparr>threads := rec_set threadId t (threads STORE)\<rparr>
           in (case rec_get (threads STORE1) threadId of
                 Some stored \<Rightarrow> (Inr stored, STORE1)
               | None \<Rightarrow> (Inr t, STORE1))))"


text \<open>
  JavaScript truthiness, as \<^verbatim>\<open>if (task.interrupts)\<close> tests it: \<^verbatim>\<open>undefined\<close>, \<^verbatim>\<open>null\<close>,
  \<^verbatim>\<open>false\<close>, \<^verbatim>\<open>0\<close> and the empty string are falsy, every object and array is truthy.
\<close>

fun truthy :: "jsval \<Rightarrow> bool" where
  "truthy JUndefined = False"
| "truthy JNull = False"
| "truthy (JBool b) = b"
| "truthy (JNum n) = (n \<noteq> 0)"
| "truthy (JStr s) = (s \<noteq> [])"
| "truthy (JArr xs) = True"
| "truthy (JObj fs) = True"

text \<open>
  \<^verbatim>\<open>CheckpointTask\<close> and \<^verbatim>\<open>CheckpointPayload\<close>. The interrupts of a task are declared
  \<^verbatim>\<open>Record<string, unknown>\<close>; they are kept as a \<open>jsval\<close> because the code tests them
  for truthiness.
\<close>

record CheckpointTask =
  ct_id :: string
  ct_name :: string
  ct_error :: "string option"
  ct_interrupts :: jsval
  ct_state :: "RunnableConfig option"

record CheckpointPayload =
  cp_config :: "RunnableConfig option"
  cp_metadata :: obj
  cp_values :: obj
  cp_next :: "string list"
  cp_parent_config :: "RunnableConfig option"
  cp_tasks :: "CheckpointTask list"

record SetStatusOptions =
  ss_checkpoint :: "CheckpointPayload option"
  ss_exception :: "string option"

text \<open>The reducer of \<^verbatim>\<open>tasks.reduce\<close> in \<^verbatim>\<open>Threads.setStatus\<close>.\<close>

definition interrupts_step :: "obj \<Rightarrow> CheckpointTask \<Rightarrow> obj" where
  "interrupts_step acc task =
     (if truthy (ct_interrupts task) then rec_set (ct_id task) (ct_interrupts task) acc else acc)"

definition Threads_setStatus ::
  "string \<Rightarrow> SetStatusOptions \<Rightarrow> int \<Rightarrow> Store \<Rightarrow> (error + unit) \<times> Store" where
  "Threads_setStatus threadId options now STORE =
     (case rec_get (threads STORE) threadId of
        None \<Rightarrow> (Inl (HTTPException 404 ''Thread not found''), STORE)
      | Some thread \<Rightarrow>
          (let hasNext = (case ss_checkpoint options of
                            Some checkpoint \<Rightarrow> length (cp_next checkpoint) > 0
                          | None \<Rightarrow> False);
               hasPendingRuns = list_ex (\<lambda>run. r_thread_id run = threadId \<and> r_status run = Pending)
                                        (rec_values (runs STORE));
               status = (if ss_exception options \<noteq> None then ThreadError
                         else if hasNext then ThreadInterrupted
                         else if hasPendingRuns then Busy
                         else Idle);
               thread1 = thread\<lparr>t_updated_at := now\<rparr>;
               thread2 = thread1\<lparr>t_status := status\<rparr>;
               thread3 = thread2\<lparr>t_values := (case ss_checkpoint options of
                                                 Some checkpoint \<Rightarrow> Some (cp_values checkpoint)
                                               | None \<Rightarrow> None)\<rparr>;
               thread4 = thread3\<lparr>t_interrupts := (case ss_checkpoint options of
                                                     Some checkpoint \<Rightarrow>
                                                       Some (foldl interrupts_step [] (cp_tasks checkpoint))
                                                   | None \<Rightarrow> None)\<rparr>
           in (Inr (), STORE\<lparr>threads := rec_set threadId thread4 (threads STORE)\<rparr>)))"

text \<open>A sample thread and checkpoint for concrete runs.\<close>

definition demo_thread :: Thread where
  "demo_thread = \<lparr>t_thread_id = ''t1'', t_created_at = 1, t_updated_at = 1,
                  t_metadata = Some [], t_config = Some empty_config, t_status = Busy,
                  t_values = None, t_interrupts = None\<rparr>"

definition demo_checkpoint :: CheckpointPayload where
  "demo_checkpoint = \<lparr>cp_config = None, cp_metadata = [], cp_values = [(''x'', JNum 1)],
       cp_next = [''node''], cp_parent_config = None,
       cp_tasks = [\<lparr>ct_id = ''task1'', ct_name = ''node'', ct_error = None,
                    ct_interrupts = JArr [JStr ''ask''], ct_state = None\<rparr>]\<rparr>"

section \<open>JavaScript numbers and computed dates\<close>

text \<open>
  A JavaScript number is an IEEE 754 double. A finite double is a rational; the result of
  an operation is the exact result rounded to the nearest double, ties to the even
  significand (\<open>to_double\<close>), and is infinite (\<open>None\<close>) from \<open>2^1024\<close> on.
  \<open>floor_log2 a\<close> is the exponent \<open>k\<close> with \<open>2^k \<le> a < 2^(k+1)\<close>; a double has a
  significand of 53 bits and its steps are no finer than \<open>2^-1074\<close>.
\<close>

definition floor_log2 :: "rat \<Rightarrow> int" where
  "floor_log2 a =
     (if 1 \<le> a then bitlen \<lfloor>a\<rfloor> - 1
      else - bitlen (\<lceil>1 / a\<rceil> - 1))"

definition round_half_even :: "rat \<Rightarrow> int" where
  "round_half_even q =
     (let f = \<lfloor>q\<rfloor>; d = q - of_int f
      in if d < 1 / 2 then f
         else if 1 / 2 < d then f + 1
         else if even f then f else f + 1)"

definition to_double :: "rat \<Rightarrow> rat option" where
  "to_double x =
     (if x = 0 then Some 0
      else
        (let a = \<bar>x\<bar>;
             e = max (floor_log2 a - 52) (- 1074);
             m = round_half_even (a / 2 powi e);
             y = of_int m * 2 powi e
         in if 2 powi 1024 \<le> y then None else Some (sgn x * y)))"

text \<open>
  \<^verbatim>\<open>new Date(value)\<close> for a finite number: the time value is \<^verbatim>\<open>TimeClip(value)\<close>, which
  is \<^verbatim>\<open>NaN\<close> beyond 8.64e15 milliseconds either side of the epoch and drops the
  fraction of a millisecond otherwise.
\<close>

definition TimeClip :: "rat \<Rightarrow> jsdate" where
  "TimeClip time =
     (if 8640000000000000 < \<bar>time\<bar> then InvalidDate
      else Date (if 0 \<le> time then \<lfloor>time\<rfloor> else \<lceil>time\<rceil>))"

text \<open>
  \<^verbatim>\<open>new Date(now.valueOf() + afterSeconds * 1000)\<close>. \<open>afterSeconds\<close> is the number as
  written in the request, read as a double; the product and the sum are doubles; an
  infinite intermediate result makes the sum infinite and the date invalid.
\<close>

definition date_after :: "int \<Rightarrow> rat \<Rightarrow> jsdate" where
  "date_after now afterSeconds =
     (case to_double afterSeconds of
        None \<Rightarrow> InvalidDate
      | Some seconds \<Rightarrow>
          (case to_double (seconds * 1000) of
             None \<Rightarrow> InvalidDate
           | Some millis \<Rightarrow>
               (case to_double (of_int now + millis) of
                  None \<Rightarrow> InvalidDate
                | Some time \<Rightarrow> TimeClip time)))"

section \<open>The stream bus: cancellation handles\<close>

datatype CancelAction = ActInterrupt | ActRollback

text \<open>
  A \<^verbatim>\<open>CancellationAbortController\<close> is its signal: whether it has fired, and with which
  reason. \<^verbatim>\<open>abort(reason)\<close> fires it once; on a fired signal it does nothing.
\<close>

record CancellationAbortController =
  aborted :: bool
  reason :: "CancelAction option"

definition new_controller :: CancellationAbortController where
  "new_controller = \<lparr>aborted = False, reason = None\<rparr>"

definition abort :: "CancelAction \<Rightarrow> CancellationAbortController \<Rightarrow> CancellationAbortController" where
  "abort r c = (if aborted c then c else c\<lparr>aborted := True, reason := Some r\<rparr>)"

type_synonym control = "(string \<times> CancellationAbortController) list"

definition getControl :: "control \<Rightarrow> string \<Rightarrow> CancellationAbortController option" where
  "getControl ctl runId = rec_get ctl runId"

definition isLocked :: "control \<Rightarrow> string \<Rightarrow> bool" where
  "isLocked ctl runId = (rec_get ctl runId \<noteq> None)"

text \<open>\<^verbatim>\<open>lock\<close> stores a new controller (over an old one, with a warning) and returns its signal.\<close>

definition lock :: "string \<Rightarrow> control \<Rightarrow> CancellationAbortController \<times> control" where
  "lock runId ctl = (new_controller, rec_set runId new_controller ctl)"

definition unlock :: "string \<Rightarrow> control \<Rightarrow> control" where
  "unlock runId ctl = rec_delete runId ctl"

text \<open>
  What the run store works on: the persisted document, the handles of
  \<^verbatim>\<open>StreamManager.control\<close>, and the calls \<^verbatim>\<open>checkpointer.delete(threadId, runId)\<close>
  made so far (the checkpointer itself is outside this file).

  Modelled from the spec: \<^verbatim>\<open>FileSystemPersistence\<close> (\<^verbatim>\<open>persist.mjs\<close>) is not among the
  sources. Its \<^verbatim>\<open>conn.with(f)\<close> is taken as the spec describes it, applying \<open>f\<close> to the
  one aggregate document and returning its result; \<^verbatim>\<open>conn.withGenerator\<close> does the same
  for a generator, and nothing else touches the document while the generator runs.
\<close>

record World =
  w_store :: Store
  w_control :: control
  w_checkpointer_deletes :: "(string \<times> string) list"

section \<open>The run store\<close>

subsection \<open>Runs.next\<close>

record NextItem =
  y_run :: Run
  y_attempt :: int
  y_signal :: CancellationAbortController

text \<open>\<^verbatim>\<open>run.created_at.getTime()\<close>, the key the picker sorts by.\<close>

definition created_time :: "Run \<Rightarrow> int" where
  "created_time run = getTime (r_created_at run)"

definition pendingRuns :: "int \<Rightarrow> Store \<Rightarrow> Run list" where
  "pendingRuns now STORE =
     sort_key created_time
       (filter (\<lambda>run. r_status run = Pending \<and> date_before (r_created_at run) now)
          (rec_values (runs STORE)))"

text \<open>\<^verbatim>\<open>STORE.retry_counter[runId] ??= 0\<close>, read.\<close>

definition retry_of :: "Store \<Rightarrow> string \<Rightarrow> int" where
  "retry_of STORE runId = (case rec_get (retry_counter STORE) runId of None \<Rightarrow> 0 | Some n \<Rightarrow> n)"

text \<open>
  The loop of the generator over the sorted pending runs, with a consumer that only
  takes the items. Each item comes with the world as it is at the \<^verbatim>\<open>yield\<close>; the
  \<^verbatim>\<open>finally\<close> block unlocks the run when the generator is resumed.
\<close>

fun next_loop :: "Run list \<Rightarrow> World \<Rightarrow> (NextItem \<times> World) list \<times> World" where
  "next_loop [] W = ([], W)"
| "next_loop (run # rest) W =
     (let runId = r_run_id run;
          threadId = r_thread_id run
      in case rec_get (threads (w_store W)) threadId of
           None \<Rightarrow> next_loop rest W
         | Some thread \<Rightarrow>
             if isLocked (w_control W) runId then next_loop rest W
             else
               (let (signal, ctl) = lock runId (w_control W);
                    STORE = w_store W;
                    STORE1 = STORE\<lparr>retry_counter := rec_set runId (retry_of STORE runId + 1) (retry_counter STORE)\<rparr>;
                    atYield = W\<lparr>w_store := STORE1, w_control := ctl\<rparr>;
                    item = \<lparr>y_run = run, y_attempt = retry_of STORE1 runId, y_signal = signal\<rparr>;
                    resumed = atYield\<lparr>w_control := unlock runId (w_control atYield)\<rparr>;
                    (items, W') = next_loop rest resumed
                in ((item, atYield) # items, W')))"

definition Runs_next :: "int \<Rightarrow> World \<Rightarrow> (NextItem \<times> World) list \<times> World" where
  "Runs_next now W = next_loop (pendingRuns now (w_store W)) W"

subsection \<open>Runs.put\<close>

record RunPutOptions =
  po_threadId :: "string option"
  po_userId :: "string option"
  po_status :: "RunStatus option"
  po_metadata :: "obj option"
  po_preventInsertInInflight :: "bool option"
  po_multitaskStrategy :: "MultitaskStrategy option"
  po_ifNotExists :: "IfNotExists option"
  po_afterSeconds :: "rat option"

text \<open>\<^verbatim>\<open>c?.configurable\<close> of a config that may be absent, and \<^verbatim>\<open>o?.key\<close> of an object that may be.\<close>

definition configurable_of :: "RunnableConfig option \<Rightarrow> obj option" where
  "configurable_of c = Option.bind c configurable"

definition prop_of :: "obj option \<Rightarrow> string \<Rightarrow> jsval option" where
  "prop_of ob k = Option.bind ob (\<lambda>fs. rec_get fs k)"

text \<open>\<^verbatim>\<open>a ?? b\<close>, and the value a property holds once the result is stored.\<close>

definition coalesce :: "jsval option \<Rightarrow> jsval option \<Rightarrow> jsval option" where
  "coalesce a b = (if is_nullish a then b else a)"

definition stored :: "jsval option \<Rightarrow> jsval" where
  "stored v = (case v of None \<Rightarrow> JUndefined | Some x \<Rightarrow> x)"

definition assign_config_opt :: "RunnableConfig \<Rightarrow> RunnableConfig option \<Rightarrow> RunnableConfig" where
  "assign_config_opt target src = (case src of None \<Rightarrow> target | Some s \<Rightarrow> assign_config target s)"

text \<open>The object found by \<^verbatim>\<open>find\<close> is changed in place, where it sits in the record.\<close>

fun update_first :: "('v \<Rightarrow> bool) \<Rightarrow> ('v \<Rightarrow> 'v) \<Rightarrow> (string \<times> 'v) list \<Rightarrow> (string \<times> 'v) list" where
  "update_first P f [] = []"
| "update_first P f ((k, v) # r) = (if P v then (k, f v) # r else (k, v) # update_first P f r)"

text \<open>The \<^verbatim>\<open>configurable\<close> of the new run (the four-source \<^verbatim>\<open>Object.assign\<close>).\<close>

definition run_configurable ::
  "string \<Rightarrow> string \<Rightarrow> string \<Rightarrow> Assistant \<Rightarrow> Thread option \<Rightarrow> RunnableConfig \<Rightarrow> string option \<Rightarrow> obj" where
  "run_configurable runId threadId assistantId assistant existingThread config userId =
     object_assign
       (object_assign_opt
          (object_assign_opt
             (object_assign_opt [] (configurable (a_config assistant)))
             (configurable_of (Option.bind existingThread t_config)))
          (configurable config))
       [(''run_id'', JStr runId),
        (''thread_id'', JStr threadId),
        (''graph_id'', JStr (a_graph_id assistant)),
        (''assistant_id'', JStr assistantId),
        (''user_id'',
           stored
             (coalesce (prop_of (configurable config) ''user_id'')
                (coalesce (prop_of (configurable_of (Option.bind existingThread t_config)) ''user_id'')
                   (coalesce (prop_of (configurable (a_config assistant)) ''user_id'')
                      (map_option JStr userId)))))]"

text \<open>
  The part of \<^verbatim>\<open>Runs.put\<close> after the thread is resolved: \<open>threadId\<close> is the resolved
  id, \<open>existingThread\<close> the thread found (as it is after the update of its status), absent
  when the thread has just been created.
\<close>

definition put_run ::
  "string \<Rightarrow> string \<Rightarrow> Assistant \<Rightarrow> RunKwargs \<Rightarrow> RunPutOptions \<Rightarrow> string \<Rightarrow> Thread option \<Rightarrow>
   int \<Rightarrow> Store \<Rightarrow> (error + Run list) \<times> Store" where
  "put_run runId assistantId assistant kwargs options threadId existingThread now STORE =
     (let multitaskStrategy = (case po_multitaskStrategy options of None \<Rightarrow> Reject | Some m \<Rightarrow> m);
          afterSeconds = (case po_afterSeconds options of None \<Rightarrow> 0 | Some s \<Rightarrow> s);
          status = (case po_status options of None \<Rightarrow> Pending | Some s \<Rightarrow> s);
          metadata = (case po_metadata options of None \<Rightarrow> [] | Some m \<Rightarrow> m);
          config = (case kw_config kwargs of None \<Rightarrow> empty_config | Some c \<Rightarrow> c);
          inflightRuns = filter (\<lambda>run. r_thread_id run = threadId \<and> r_status run = Pending)
                                (rec_values (runs STORE))
      in if po_preventInsertInInflight options = Some True \<and> length inflightRuns > 0
         then (Inr inflightRuns, STORE)
         else
           (let configurable =
                  run_configurable runId threadId assistantId assistant existingThread config
                    (po_userId options);
                mergedMetadata =
                  object_assign
                    (object_assign_opt (object_assign [] (a_metadata assistant))
                       (Option.bind existingThread t_metadata))
                    metadata;
                newRun =
                  \<lparr>r_run_id = runId,
                   r_thread_id = threadId,
                   r_assistant_id = assistantId,
                   r_created_at = date_after now afterSeconds,
                   r_updated_at = now,
                   r_status = status,
                   r_metadata = mergedMetadata,
                   r_kwargs = kwargs\<lparr>kw_config :=
                     Some (assign_config
                             (assign_config
                                (assign_config (assign_config empty_config (a_config assistant)) config)
                                (empty_config\<lparr>configurable := Some configurable\<rparr>))
                             (empty_config\<lparr>cfg_metadata := Some mergedMetadata\<rparr>))\<rparr>,
                   r_multitask_strategy = multitaskStrategy\<rparr>
            in (Inr (newRun # inflightRuns), STORE\<lparr>runs := rec_set runId newRun (runs STORE)\<rparr>)))"

definition no_assistant_message :: "string \<Rightarrow> string" where
  "no_assistant_message assistantId =
     ''No assistant found for '' @ [CHR 0x22] @ assistantId @ [CHR 0x22] @
     ''. Make sure the assistant ID is for a valid assistant or a valid graph ID.''"

text \<open>
  \<^verbatim>\<open>Runs.put\<close>. \<open>fresh\<close> is the id \<^verbatim>\<open>uuid4()\<close> returns when the call names no thread;
  \<open>now\<close> is the time of the call.
\<close>

definition Runs_put ::
  "string \<Rightarrow> string \<Rightarrow> RunKwargs \<Rightarrow> RunPutOptions \<Rightarrow> string \<Rightarrow> int \<Rightarrow> Store \<Rightarrow>
   (error + Run list) \<times> Store" where
  "Runs_put runId assistantId kwargs options fresh now STORE =
     (case rec_get (assistants STORE) assistantId of
        None \<Rightarrow> (Inl (HTTPException 404 (no_assistant_message assistantId)), STORE)
      | Some assistant \<Rightarrow>
          (let ifNotExists = (case po_ifNotExists options of None \<Rightarrow> RejectMissing | Some i \<Rightarrow> i);
               threadId = po_threadId options;
               config = (case kw_config kwargs of None \<Rightarrow> empty_config | Some c \<Rightarrow> c);
               existingThread = find (\<lambda>thread. Some (t_thread_id thread) = threadId)
                                     (rec_values (threads STORE))
           in if existingThread = None \<and> (threadId = None \<or> ifNotExists = Create) then
                (let threadId1 = (case threadId of None \<Rightarrow> fresh | Some t \<Rightarrow> t);
                     thread =
                       \<lparr>t_thread_id = threadId1,
                        t_created_at = now,
                        t_updated_at = now,
                        t_metadata = Some [(''graph_id'', JStr (a_graph_id assistant)),
                                           (''assistant_id'', JStr assistantId)],
                        t_config = Some (assign_config
                          (assign_config (assign_config empty_config (a_config assistant)) config)
                          (empty_config\<lparr>configurable := Some
                             (object_assign_opt
                                (object_assign_opt [] (configurable (a_config assistant)))
                                (configurable config))\<rparr>)),
                        t_status = Busy,
                        t_values = None,
                        t_interrupts = None\<rparr>
                 in put_run runId assistantId assistant kwargs options threadId1 None now
                      (STORE\<lparr>threads := rec_set threadId1 thread (threads STORE)\<rparr>))
              else
                (case existingThread of
                   Some found \<Rightarrow>
                     (let updated =
                            (if t_status found \<noteq> Busy then
                               found\<lparr>t_status := Busy,
                                     t_metadata := Some
                                       (object_assign (object_assign_opt [] (t_metadata found))
                                          [(''graph_id'', JStr (a_graph_id assistant)),
                                           (''assistant_id'', JStr assistantId)]),
                                     t_config := Some (assign_config
                                       (assign_config
                                          (assign_config_opt
                                             (assign_config empty_config (a_config assistant))
                                             (t_config found))
                                          config)
                                       (empty_config\<lparr>configurable := Some
                                          (object_assign_opt
                                             (object_assign_opt
                                                (object_assign_opt [] (configurable (a_config assistant)))
                                                (configurable_of (t_config found)))
                                             (configurable config))\<rparr>)),
                                     t_updated_at := now\<rparr>
                             else found)
                      in put_run runId assistantId assistant kwargs options (t_thread_id found)
                           (Some updated) now
                           (STORE\<lparr>threads :=
                              update_first (\<lambda>thread. Some (t_thread_id thread) = threadId)
                                (\<lambda>_. updated) (threads STORE)\<rparr>))
                 | None \<Rightarrow> (Inr [], STORE))))"
subsection \<open>Notions used to state the behaviour of Runs.put\<close>

text \<open>The runs in flight on a thread: the filter \<^verbatim>\<open>Runs.put\<close> applies to the store.\<close>

definition inflight_of :: "string \<Rightarrow> Store \<Rightarrow> Run list" where
  "inflight_of tid S = filter (\<lambda>run. r_thread_id run = tid \<and> r_status run = Pending) (rec_values (runs S))"

text \<open>The keys of a JavaScript object are distinct.\<close>

definition keys_distinct :: "obj option \<Rightarrow> bool" where
  "keys_distinct ob = (case ob of None \<Rightarrow> True | Some fs \<Rightarrow> distinct (map fst fs))"

text \<open>Later layers win, key by key.\<close>

definition layered :: "obj option \<Rightarrow> obj option \<Rightarrow> obj option \<Rightarrow> string \<Rightarrow> jsval option" where
  "layered A T C k =
     (case prop_of C k of
        Some v \<Rightarrow> Some v
      | None \<Rightarrow> (case prop_of T k of Some v \<Rightarrow> Some v | None \<Rightarrow> prop_of A k))"

text \<open>The keys \<^verbatim>\<open>Runs.put\<close> adds to the configurable of a run.\<close>

definition synthesized_keys :: "string set" where
  "synthesized_keys = {''run_id'', ''thread_id'', ''graph_id'', ''assistant_id'', ''user_id''}"

text \<open>The configurable of the run a call has created (the first run it returns).\<close>

definition created_configurable :: "(error + Run list) \<times> Store \<Rightarrow> obj option" where
  "created_configurable res =
     (case fst res of
        Inr (newRun # others) \<Rightarrow> configurable_of (kw_config (r_kwargs newRun))
      | _ \<Rightarrow> None)"

text \<open>The deep merge the specification speaks of: a nested object is merged key by key.\<close>

fun deep_merge_spec :: "obj \<Rightarrow> obj \<Rightarrow> obj" where
  "deep_merge_spec target [] = target"
| "deep_merge_spec target ((k, JObj s) # src) =
     deep_merge_spec
       (rec_set k (case rec_get target k of
                     Some (JObj t) \<Rightarrow> JObj (deep_merge_spec t s)
                   | _ \<Rightarrow> JObj s) target) src"
| "deep_merge_spec target ((k, v) # src) = deep_merge_spec (rec_set k v target) src"

text \<open>A sample assistant, call and store for concrete runs.\<close>

definition demo_assistant :: Assistant where
  "demo_assistant = \<lparr>a_name = Some ''agent'', a_assistant_id = ''a1'', a_graph_id = ''agent'',
      a_created_at = 1, a_updated_at = 1, a_version = Fin 1,
      a_config = empty_config\<lparr>configurable := Some [(''model'', JObj [(''name'', JStr ''small''), (''temp'', JNum 1)])]\<rparr>,
      a_metadata = []\<rparr>"

definition demo_kwargs :: RunKwargs where
  "demo_kwargs = \<lparr>kw_config = Some (empty_config\<lparr>configurable := Some [(''model'', JObj [(''name'', JStr ''large'')])]\<rparr>),
                  kw_rest = [(''input'', JNull)]\<rparr>"

definition default_put_options :: RunPutOptions where
  "default_put_options = \<lparr>po_threadId = None, po_userId = None, po_status = None, po_metadata = None,
      po_preventInsertInInflight = None, po_multitaskStrategy = None, po_ifNotExists = None,
      po_afterSeconds = None\<rparr>"

definition demo_store :: Store where
  "demo_store = empty_store\<lparr>assistants := [(''a1'', demo_assistant)],
                            threads := [(''t1'', demo_thread)]\<rparr>"


definition demo_run :: Run where
  "demo_run = \<lparr>r_run_id = ''r0'', r_thread_id = ''t1'', r_assistant_id = ''a1'',
                r_created_at = Date 50, r_updated_at = 50, r_status = Pending, r_metadata = [],
                r_kwargs = \<lparr>kw_config = None, kw_rest = []\<rparr>, r_multitask_strategy = Reject\<rparr>"

subsection \<open>Notions used to state the behaviour of Runs.next\<close>

text \<open>
  A run the picker yields: pending, created strictly before \<open>now\<close>, on a thread of the
  store, and not locked in the stream bus. A run whose \<^verbatim>\<open>created_at\<close> is an Invalid
  Date is never before \<open>now\<close>. \<open>pickable\<close> is the part the loop tests.
\<close>

definition eligible :: "int \<Rightarrow> World \<Rightarrow> Run \<Rightarrow> bool" where
  "eligible now W run =
     (r_status run = Pending \<and> date_before (r_created_at run) now \<and>
      rec_get (threads (w_store W)) (r_thread_id run) \<noteq> None \<and>
      \<not> isLocked (w_control W) (r_run_id run))"

definition pickable :: "World \<Rightarrow> Run \<Rightarrow> bool" where
  "pickable W run =
     (rec_get (threads (w_store W)) (r_thread_id run) \<noteq> None \<and>
      \<not> isLocked (w_control W) (r_run_id run))"

text \<open>
  The world at the \<^verbatim>\<open>yield\<close> of a run (locked, counter incremented), the item yielded,
  and the world once the generator is resumed (unlocked again).
\<close>

definition at_yield :: "World \<Rightarrow> Run \<Rightarrow> World" where
  "at_yield W run =
     W\<lparr>w_store := (w_store W)\<lparr>retry_counter :=
          rec_set (r_run_id run) (retry_of (w_store W) (r_run_id run) + 1) (retry_counter (w_store W))\<rparr>,
       w_control := rec_set (r_run_id run) new_controller (w_control W)\<rparr>"

definition item_of :: "World \<Rightarrow> Run \<Rightarrow> NextItem" where
  "item_of W run =
     \<lparr>y_run = run, y_attempt = retry_of (w_store W) (r_run_id run) + 1, y_signal = new_controller\<rparr>"

definition resumed :: "World \<Rightarrow> Run \<Rightarrow> World" where
  "resumed W run =
     W\<lparr>w_store := (w_store W)\<lparr>retry_counter :=
          rec_set (r_run_id run) (retry_of (w_store W) (r_run_id run) + 1) (retry_counter (w_store W))\<rparr>\<rparr>"

text \<open>What holds at each yield.\<close>

definition yield_ok :: "NextItem \<times> World \<Rightarrow> bool" where
  "yield_ok y =
     (case y of (item, W) \<Rightarrow>
        isLocked (w_control W) (r_run_id (y_run item)) \<and>
        getControl (w_control W) (r_run_id (y_run item)) = Some (y_signal item) \<and>
        \<not> aborted (y_signal item) \<and>
        rec_get (retry_counter (w_store W)) (r_run_id (y_run item)) = Some (y_attempt item))"

text \<open>Each attempt is one more than the counter of the run at the yield before.\<close>

fun attempts_ok :: "Store \<Rightarrow> (NextItem \<times> World) list \<Rightarrow> bool" where
  "attempts_ok before [] = True"
| "attempts_ok before ((item, W) # ys) =
     (y_attempt item = retry_of before (r_run_id (y_run item)) + 1 \<and> attempts_ok (w_store W) ys)"

text \<open>
  A sample world: two runs created at the same time, stored as \<open>b\<close> then \<open>a\<close>; a run
  created at the very time of the call; a run whose thread is not in the store.
\<close>

definition picker_run :: "string \<Rightarrow> string \<Rightarrow> int \<Rightarrow> Run" where
  "picker_run runId threadId createdAt =
     \<lparr>r_run_id = runId, r_thread_id = threadId, r_assistant_id = ''a1'',
      r_created_at = Date createdAt, r_updated_at = createdAt, r_status = Pending, r_metadata = [],
      r_kwargs = \<lparr>kw_config = None, kw_rest = []\<rparr>, r_multitask_strategy = Enqueue\<rparr>"

definition picker_world :: World where
  "picker_world =
     \<lparr>w_store = empty_store
        \<lparr>threads := [(''t1'', demo_thread)],
         runs := [(''b'', picker_run ''b'' ''t1'' 5), (''a'', picker_run ''a'' ''t1'' 5),
                  (''c'', picker_run ''c'' ''t1'' 10), (''d'', picker_run ''d'' ''t9'' 1)]\<rparr>,
      w_control = [], w_checkpointer_deletes = []\<rparr>"

subsection \<open>Runs.delete and Runs.cancel\<close>

definition Runs_delete :: "string \<Rightarrow> string option \<Rightarrow> World \<Rightarrow> (error + string) \<times> World" where
  "Runs_delete runId threadId W =
     (case rec_get (runs (w_store W)) runId of
        None \<Rightarrow> (Inl (PlainError ''Run not found''), W)
      | Some run \<Rightarrow>
          if threadId \<noteq> None \<and> Some (r_thread_id run) \<noteq> threadId
          then (Inl (PlainError ''Run not found''), W)
          else
            (let W1 = (case threadId of
                         Some t \<Rightarrow> W\<lparr>w_checkpointer_deletes := w_checkpointer_deletes W @ [(t, runId)]\<rparr>
                       | None \<Rightarrow> W)
             in (Inr (r_run_id run),
                 W1\<lparr>w_store := (w_store W1)\<lparr>runs := rec_delete runId (runs (w_store W1))\<rparr>\<rparr>)))"

text \<open>
  One round of the loop of \<^verbatim>\<open>Runs.cancel\<close> over \<^verbatim>\<open>runIds\<close>. The state is the world,
  \<^verbatim>\<open>foundRunsCount\<close> and the results of the \<^verbatim>\<open>Runs.delete\<close> calls pushed to
  \<^verbatim>\<open>promises\<close>; a \<^verbatim>\<open>Runs.delete\<close> call works on the document at once.
\<close>

definition cancel_step ::
  "string option \<Rightarrow> CancelAction option \<Rightarrow> int \<Rightarrow> string \<Rightarrow>
   World \<times> nat \<times> (error + string) list \<Rightarrow> World \<times> nat \<times> (error + string) list" where
  "cancel_step threadId optAction now runId st =
     (case st of (W, foundRunsCount, promises) \<Rightarrow>
        (let action = (case optAction of None \<Rightarrow> ActInterrupt | Some a \<Rightarrow> a)
         in case rec_get (runs (w_store W)) runId of
              None \<Rightarrow> st
            | Some run \<Rightarrow>
                if threadId \<noteq> None \<and> Some (r_thread_id run) \<noteq> threadId then st
                else
                  (let found1 = foundRunsCount + 1;
                       control = getControl (w_control W) runId;
                       W1 = (case control of
                               None \<Rightarrow> W
                             | Some c \<Rightarrow> W\<lparr>w_control := rec_set runId (abort action c) (w_control W)\<rparr>)
                   in if r_status run = Pending then
                        (if control \<noteq> None \<or> action \<noteq> ActRollback then
                           (W1\<lparr>w_store := (w_store W1)\<lparr>runs :=
                                 rec_set runId (run\<lparr>r_status := Interrupted, r_updated_at := now\<rparr>)
                                   (runs (w_store W1))\<rparr>\<rparr>,
                            found1, promises)
                         else
                           (case Runs_delete runId threadId W1 of
                              (res, W2) \<Rightarrow> (W2, found1, promises @ [res])))
                      else (W1, found1, promises))))"

text \<open>\<^verbatim>\<open>await Promise.all(promises)\<close> throws the first rejection, if there is one.\<close>

fun first_rejection :: "(error + 'a) list \<Rightarrow> error option" where
  "first_rejection [] = None"
| "first_rejection (Inl e # ps) = Some e"
| "first_rejection (Inr x # ps) = first_rejection ps"

definition Runs_cancel ::
  "string option \<Rightarrow> string list \<Rightarrow> CancelAction option \<Rightarrow> int \<Rightarrow> World \<Rightarrow> (error + unit) \<times> World" where
  "Runs_cancel threadId runIds optAction now W =
     (case fold (cancel_step threadId optAction now) runIds (W, 0, []) of
        (W', foundRunsCount, promises) \<Rightarrow>
          (case first_rejection promises of
             Some e \<Rightarrow> (Inl e, W')
           | None \<Rightarrow>
               if foundRunsCount = length runIds then (Inr (), W')
               else (Inl (HTTPException 404 ''Run not found''), W')))"

text \<open>
  A listed run counts as found when the store has it and, if the call names a thread, it
  is a run of that thread.
\<close>

definition on_thread :: "string option \<Rightarrow> Run \<Rightarrow> bool" where
  "on_thread threadId run = (threadId = None \<or> Some (r_thread_id run) = threadId)"

definition found_in :: "string option \<Rightarrow> World \<Rightarrow> string \<Rightarrow> bool" where
  "found_in threadId W runId =
     (case rec_get (runs (w_store W)) runId of None \<Rightarrow> False | Some run \<Rightarrow> on_thread threadId run)"

text \<open>What one round does to the run and the handle stored under the id it visits.\<close>

definition cancel_view ::
  "string option \<Rightarrow> CancelAction \<Rightarrow> int \<Rightarrow> Run option \<times> CancellationAbortController option \<Rightarrow>
   Run option \<times> CancellationAbortController option" where
  "cancel_view threadId action now v =
     (case v of
        (None, c) \<Rightarrow> (None, c)
      | (Some run, c) \<Rightarrow>
          if \<not> on_thread threadId run then (Some run, c)
          else if r_status run \<noteq> Pending then (Some run, map_option (abort action) c)
          else if c \<noteq> None \<or> action \<noteq> ActRollback
            then (Some (run\<lparr>r_status := Interrupted, r_updated_at := now\<rparr>), map_option (abort action) c)
          else (None, c))"

definition view :: "World \<Rightarrow> string \<Rightarrow> Run option \<times> CancellationAbortController option" where
  "view W runId = (rec_get (runs (w_store W)) runId, rec_get (w_control W) runId)"

text \<open>A sample world for cancellation: \<open>r1\<close> pending and unlocked, \<open>r2\<close> pending and locked, \<open>r3\<close> finished.\<close>

definition cancel_run :: "string \<Rightarrow> RunStatus \<Rightarrow> Run" where
  "cancel_run runId status =
     \<lparr>r_run_id = runId, r_thread_id = ''t1'', r_assistant_id = ''a1'',
      r_created_at = Date 5, r_updated_at = 5, r_status = status, r_metadata = [],
      r_kwargs = \<lparr>kw_config = None, kw_rest = []\<rparr>, r_multitask_strategy = Rollback\<rparr>"

definition cancel_world :: World where
  "cancel_world =
     \<lparr>w_store = empty_store
        \<lparr>threads := [(''t1'', demo_thread)],
         runs := [(''r1'', cancel_run ''r1'' Pending), (''r2'', cancel_run ''r2'' Pending),
                  (''r3'', cancel_run ''r3'' Success)]\<rparr>,
      w_control = [(''r2'', new_controller)], w_checkpointer_deletes = []\<rparr>"

subsection \<open>Runs.search\<close>

text \<open>
  \<^verbatim>\<open>typeof value === "object" && value !== null\<close>: objects and arrays.
\<close>

fun isObject :: "jsval \<Rightarrow> bool" where
  "isObject (JObj fs) = True"
| "isObject (JArr xs) = True"
| "isObject v = False"

text \<open>The key of an array element: its index in decimal.\<close>

fun index_key :: "nat \<Rightarrow> string" where
  "index_key n =
     (if n < 10 then [char_of (48 + n)]
      else index_key (n div 10) @ [char_of (48 + n mod 10)])"

text \<open>
  \<^verbatim>\<open>Object.entries(v)\<close> and \<^verbatim>\<open>v[key]\<close> for an object or an array (the only values
  \<^verbatim>\<open>isJsonbContained\<close> applies them to). Only own properties are modelled: for a key
  that the object inherits and does not own (\<^verbatim>\<open>__proto__\<close>, \<^verbatim>\<open>constructor\<close>,
  \<^verbatim>\<open>toString\<close>, ...) JavaScript reads the inherited value, and \<open>js_prop\<close> has none.
  The filters and metadata considered below have no such key.
\<close>

fun js_entries :: "jsval \<Rightarrow> (string \<times> jsval) list" where
  "js_entries (JObj fs) = fs"
| "js_entries (JArr xs) = zip (map index_key [0..<length xs]) xs"
| "js_entries v = []"

fun js_prop :: "jsval \<Rightarrow> string \<Rightarrow> jsval option" where
  "js_prop (JObj fs) key = rec_get fs key"
| "js_prop (JArr xs) key =
     (if key = ''length'' then Some (JNum (int (length xs)))
      else rec_get (zip (map index_key [0..<length xs]) xs) key)"
| "js_prop v key = None"

text \<open>
  \<^verbatim>\<open>isJsonbContained(superset, subset)\<close>. An argument is \<open>None\<close> when it is
  \<^verbatim>\<open>undefined\<close>. The loop returns \<^verbatim>\<open>false\<close> at the first entry that fails, so it is a
  conjunction over the entries. Where \<^verbatim>\<open>!==\<close> is reached, one side is not an object,
  and the two are identical exactly when they are the same value.
\<close>

function isJsonbContained :: "jsval option \<Rightarrow> jsval option \<Rightarrow> bool" where
  "isJsonbContained superset subset' =
     (case (superset, subset') of
        (Some sup_v, Some sub_v) \<Rightarrow>
          if is_nullish superset \<or> is_nullish subset' then True
          else list_all
                 (\<lambda>(key, value).
                    case js_prop sup_v key of
                      None \<Rightarrow> False
                    | Some s \<Rightarrow>
                        if is_nullish (Some s) then False
                        else if isObject value \<and> isObject s then isJsonbContained (Some s) (Some value)
                        else s = value)
                 (js_entries sub_v)
      | _ \<Rightarrow> True)"
  by pat_completeness auto

termination isJsonbContained
proof (relation "measure (\<lambda>(superset, subset'). case subset' of None \<Rightarrow> 0 | Some v \<Rightarrow> size v)")
  show "wf (measure (\<lambda>(superset, subset'). case subset' of None \<Rightarrow> 0 | Some v \<Rightarrow> size v))"
    by simp
next
  fix superset subset' :: "jsval option" and x y sup_v sub_v z key "value" s
  assume "(x, y) = (superset, subset')" "x = Some sup_v" "y = Some sub_v"
    and z: "z \<in> set (js_entries sub_v)" "(key, value) = z"
  from z have mem: "(key, value) \<in> set (js_entries sub_v)" by simp
  have "size value < size sub_v"
  proof (cases sub_v)
    case (JObj fs)
    with mem have "(key, value) \<in> set fs" by simp
    then have "size value < Suc (size_list (size_prod (\<lambda>_. 0) size) fs)"
      by (induction fs) auto
    then show ?thesis using JObj by simp
  next
    case (JArr xs)
    with mem have "value \<in> set xs" by (auto dest: set_zip_rightD)
    then have "size value < Suc (size_list size xs)"
      by (induction xs) auto
    then show ?thesis using JArr by simp
  qed (use mem in simp_all)
  then show "((Some s, Some value), (superset, subset'))
        \<in> measure (\<lambda>(superset, subset'). case subset' of None \<Rightarrow> 0 | Some v \<Rightarrow> size v)"
    using \<open>(x, y) = (superset, subset')\<close> \<open>y = Some sub_v\<close> by auto
qed

record RunSearchOptions =
  so_limit :: "int option"
  so_offset :: "int option"
  so_status :: "string option"
  so_metadata :: "obj option"

fun status_name :: "RunStatus \<Rightarrow> string" where
  "status_name Pending = ''pending''"
| "status_name Running = ''running''"
| "status_name RunError = ''error''"
| "status_name Success = ''success''"
| "status_name Timeout = ''timeout''"
| "status_name Interrupted = ''interrupted''"

text \<open>
  \<^verbatim>\<open>xs.slice(start, end)\<close>: a negative index counts from the end, both are clamped to
  the array, and the result is empty when \<open>end\<close> is not after \<open>start\<close>.
\<close>

definition js_slice :: "int \<Rightarrow> int \<Rightarrow> 'a list \<Rightarrow> 'a list" where
  "js_slice start end xs =
     (let len = int (length xs);
          k = (if start < 0 then max (len + start) 0 else min start len);
          final = (if end < 0 then max (len + end) 0 else min end len)
      in take (nat (final - k)) (drop (nat k) xs))"

text \<open>The filter of \<^verbatim>\<open>Runs.search\<close>, and the search itself.\<close>

definition search_matches :: "string \<Rightarrow> RunSearchOptions \<Rightarrow> Store \<Rightarrow> Run list" where
  "search_matches threadId options STORE =
     filter (\<lambda>run.
        if r_thread_id run \<noteq> threadId then False
        else if (case so_status options of None \<Rightarrow> False | Some st \<Rightarrow> status_name (r_status run) \<noteq> st)
          then False
        else if (case so_metadata options of
                   None \<Rightarrow> False
                 | Some m \<Rightarrow> \<not> isJsonbContained (Some (JObj (r_metadata run))) (Some (JObj m)))
          then False
        else True)
       (rec_values (runs STORE))"

definition Runs_search :: "string \<Rightarrow> RunSearchOptions \<Rightarrow> Store \<Rightarrow> Run list" where
  "Runs_search threadId options STORE =
     js_slice (case so_offset options of None \<Rightarrow> 0 | Some n \<Rightarrow> n)
              (case so_limit options of None \<Rightarrow> 10 | Some n \<Rightarrow> n)
              (search_matches threadId options STORE)"

text \<open>
  What the specification asks of a search: skip the first \<open>offset\<close> matches and return
  at most \<open>limit\<close> of the rest (as \<^verbatim>\<open>Assistants.search\<close>, \<^verbatim>\<open>Threads.search\<close> and
  \<^verbatim>\<open>Assistants.getVersions\<close> do with \<^verbatim>\<open>slice(offset, offset + limit)\<close>).
\<close>

definition search_spec :: "string \<Rightarrow> RunSearchOptions \<Rightarrow> Store \<Rightarrow> Run list" where
  "search_spec threadId options STORE =
     take (nat (case so_limit options of None \<Rightarrow> 10 | Some n \<Rightarrow> n))
       (drop (nat (case so_offset options of None \<Rightarrow> 0 | Some n \<Rightarrow> n))
          (search_matches threadId options STORE))"

text \<open>A sample store: three runs on thread \<open>t1\<close>.\<close>

definition search_run :: "string \<Rightarrow> Run" where
  "search_run runId =
     \<lparr>r_run_id = runId, r_thread_id = ''t1'', r_assistant_id = ''a1'',
      r_created_at = Date 5, r_updated_at = 5, r_status = Success, r_metadata = [(''k'', JNum 1)],
      r_kwargs = \<lparr>kw_config = None, kw_rest = []\<rparr>, r_multitask_strategy = Enqueue\<rparr>"

definition search_store :: Store where
  "search_store = empty_store\<lparr>runs := [(''r1'', search_run ''r1''), (''r2'', search_run ''r2''),
                                        (''r3'', search_run ''r3'')]\<rparr>"
section \<open>The stream bus: the message queue\<close>

text \<open>
  \<^verbatim>\<open>class Queue\<close> holds a buffer of messages and a list of listeners. A call of
  \<^verbatim>\<open>get\<close> that finds the buffer empty makes a promise, arms a timer, registers a
  listener and, when a signal is given, a handler for the signal's \<^verbatim>\<open>abort\<close> event;
  these three callbacks and the \<^verbatim>\<open>then\<close> callback are run later by the JavaScript
  runtime, one at a time. The model keeps one record for each call of \<^verbatim>\<open>get\<close>, in call
  order, and makes every callback an event:

  \<^item> \<open>Waiting\<close>: the promise is pending;
  \<^item> \<open>Woken\<close>: the listener has resolved the promise, the \<^verbatim>\<open>then\<close> callback has not
    run yet;
  \<^item> \<open>Returned m\<close>: the call has returned \<open>m\<close>, the result of \<^verbatim>\<open>buffer.shift()\<close>
    (\<open>None\<close> is \<^verbatim>\<open>undefined\<close>, the result on an empty buffer);
  \<^item> \<open>Failed e\<close>: the promise is rejected and the call has thrown \<open>e\<close>.

  Resolving or rejecting a promise that is no longer pending does nothing. A timer armed
  at time \<open>now\<close> with delay \<open>timeout\<close> is due at \<open>now + timeout\<close> and cannot fire
  before.
\<close>

record Message =
  m_topic :: string
  m_data :: jsval

datatype GetError = TimeoutError | AbortError

datatype CallState = Waiting | Woken | Returned "Message option" | Failed GetError

record GetCall =
  c_state :: CallState
  c_timer :: "int option"
  c_signal :: "nat option"

record Queue =
  buffer :: "Message list"
  listeners :: "nat list"
  calls :: "GetCall list"
  fired :: "nat list"

definition empty_queue :: Queue where
  "empty_queue = \<lparr>buffer = [], listeners = [], calls = [], fired = []\<rparr>"

text \<open>\<^verbatim>\<open>resolve()\<close> and \<^verbatim>\<open>reject(e)\<close> on the promise of a call.\<close>

definition resolve :: "GetCall \<Rightarrow> GetCall" where
  "resolve c = (if c_state c = Waiting then c\<lparr>c_state := Woken\<rparr> else c)"

definition reject :: "GetError \<Rightarrow> GetCall \<Rightarrow> GetCall" where
  "reject e c = (if c_state c = Waiting then c\<lparr>c_state := Failed e\<rparr> else c)"

text \<open>The callbacks of call number \<open>w\<close>: the listener, the timer's, the abort handler.\<close>

definition listener_callback :: "nat \<Rightarrow> Queue \<Rightarrow> Queue" where
  "listener_callback w q =
     (if w < length (calls q)
      then q\<lparr>listeners := filter (\<lambda>l. l \<noteq> w) (listeners q),
             calls := (calls q)[w := resolve ((calls q ! w)\<lparr>c_timer := None\<rparr>)]\<rparr>
      else q)"

definition timer_callback :: "nat \<Rightarrow> Queue \<Rightarrow> Queue" where
  "timer_callback w q =
     (if w < length (calls q)
      then q\<lparr>listeners := filter (\<lambda>l. l \<noteq> w) (listeners q),
             calls := (calls q)[w := reject TimeoutError ((calls q ! w)\<lparr>c_timer := None\<rparr>)]\<rparr>
      else q)"

definition abort_callback :: "nat \<Rightarrow> Queue \<Rightarrow> Queue" where
  "abort_callback w q =
     (if w < length (calls q)
      then q\<lparr>listeners := filter (\<lambda>l. l \<noteq> w) (listeners q),
             calls := (calls q)[w := reject AbortError ((calls q ! w)\<lparr>c_timer := None\<rparr>)]\<rparr>
      else q)"

text \<open>\<^verbatim>\<open>push(item)\<close>: append, then call every listener of the list as it was.\<close>

definition push :: "Message \<Rightarrow> Queue \<Rightarrow> Queue" where
  "push item q = fold listener_callback (listeners q) (q\<lparr>buffer := buffer q @ [item]\<rparr>)"

text \<open>
  \<^verbatim>\<open>get({timeout, signal})\<close> at time \<open>now\<close>: with a message in the buffer the call
  returns it at once; otherwise the call is registered and waits.
\<close>

definition get :: "int \<Rightarrow> nat option \<Rightarrow> int \<Rightarrow> Queue \<Rightarrow> Queue" where
  "get timeout signal now q =
     (case buffer q of
        item # rest \<Rightarrow>
          q\<lparr>buffer := rest,
            calls := calls q @ [\<lparr>c_state = Returned (Some item), c_timer = None, c_signal = None\<rparr>]\<rparr>
      | [] \<Rightarrow>
          q\<lparr>calls := calls q @ [\<lparr>c_state = Waiting, c_timer = Some (now + timeout), c_signal = signal\<rparr>],
            listeners := listeners q @ [length (calls q)]\<rparr>)"

text \<open>\<^verbatim>\<open>.then(() => this.buffer.shift()!)\<close>, run once the promise of call \<open>w\<close> is resolved.\<close>

definition then_callback :: "nat \<Rightarrow> Queue \<Rightarrow> Queue" where
  "then_callback w q =
     (if w < length (calls q) \<and> c_state (calls q ! w) = Woken
      then q\<lparr>buffer := tl (buffer q),
             calls := (calls q)[w := (calls q ! w)\<lparr>c_state :=
                        Returned (case buffer q of [] \<Rightarrow> None | item # rest \<Rightarrow> Some item)\<rparr>]\<rparr>
      else q)"

text \<open>
  What can happen to a queue: a push, a call of \<^verbatim>\<open>get\<close>, the timer of a call firing at
  some time (only an armed timer that is due fires), a signal firing (once; every handler
  registered on it runs), the \<^verbatim>\<open>then\<close> callback of a call.
\<close>

datatype event =
    Push Message
  | Get int "nat option" int
  | TimerFires nat int
  | SignalFires nat
  | ThenRuns nat

fun step :: "event \<Rightarrow> Queue \<Rightarrow> Queue" where
  "step (Push item) q = push item q"
| "step (Get timeout signal now) q = get timeout signal now q"
| "step (TimerFires w now) q =
     (if w < length (calls q) \<and> (case c_timer (calls q ! w) of None \<Rightarrow> False | Some due \<Rightarrow> due \<le> now)
      then timer_callback w q else q)"
| "step (SignalFires sid) q =
     (if sid \<in> set (fired q) then q
      else fold abort_callback
             (filter (\<lambda>w. c_signal (calls q ! w) = Some sid) [0..<length (calls q)])
             (q\<lparr>fired := fired q @ [sid]\<rparr>))"
| "step (ThenRuns w) q = then_callback w q"

definition run_events :: "event list \<Rightarrow> Queue \<Rightarrow> Queue" where
  "run_events events q = fold step events q"

text \<open>
  A single subscriber awaits each \<^verbatim>\<open>get\<close> before it calls the next: no call of
  \<^verbatim>\<open>get\<close> is made while an earlier one is still waiting or woken.
\<close>

definition outstanding :: "GetCall \<Rightarrow> bool" where
  "outstanding c = (c_state c = Waiting \<or> c_state c = Woken)"

fun single_subscriber :: "event list \<Rightarrow> Queue \<Rightarrow> bool" where
  "single_subscriber [] q = True"
| "single_subscriber (Get timeout signal now # events) q =
     (\<not> list_ex outstanding (calls q) \<and> single_subscriber events (step (Get timeout signal now) q))"
| "single_subscriber (e # events) q = single_subscriber events (step e q)"

text \<open>The messages pushed by a list of events, and the messages the calls have returned.\<close>

fun pushed :: "event list \<Rightarrow> Message list" where
  "pushed [] = []"
| "pushed (Push item # events) = item # pushed events"
| "pushed (e # events) = pushed events"

fun returned :: "GetCall list \<Rightarrow> Message list" where
  "returned [] = []"
| "returned (c # cs) =
     (case c_state c of Returned (Some item) \<Rightarrow> item # returned cs | _ \<Rightarrow> returned cs)"
subsection \<open>Notions used to state the behaviour of the queue\<close>

text \<open>A callback leaves a call as it is, or settles a waiting one.\<close>

definition settles :: "GetCall \<Rightarrow> GetCall \<Rightarrow> bool" where
  "settles c c' =
     (c_state c' = c_state c \<or>
      (c_state c = Waiting \<and> (c_state c' = Woken \<or> (\<exists>e. c_state c' = Failed e))))"

definition fails :: "GetCall \<Rightarrow> GetCall \<Rightarrow> bool" where
  "fails c c' = (c_state c' = c_state c \<or> (c_state c = Waiting \<and> (\<exists>e. c_state c' = Failed e)))"

text \<open>
  The invariant of a queue with a single subscriber: only the last call can be
  outstanding, a woken call finds a message in the buffer, and no call has returned
  \<^verbatim>\<open>undefined\<close>.
\<close>

definition queue_inv :: "Queue \<Rightarrow> bool" where
  "queue_inv q =
     (list_all (\<lambda>c. \<not> outstanding c) (butlast (calls q)) \<and>
      (list_ex (\<lambda>c. c_state c = Woken) (calls q) \<longrightarrow> buffer q \<noteq> []) \<and>
      list_all (\<lambda>c. c_state c \<noteq> Returned None) (calls q))"

text \<open>Call \<open>w\<close> waits: its promise is pending, its timer armed, its listener registered.\<close>

definition waits :: "nat \<Rightarrow> int \<Rightarrow> nat option \<Rightarrow> Queue \<Rightarrow> bool" where
  "waits w due signal q =
     (w < length (calls q) \<and>
      c_state (calls q ! w) = Waiting \<and>
      c_timer (calls q ! w) = Some due \<and>
      c_signal (calls q ! w) = signal \<and>
      w \<in> set (listeners q))"

text \<open>
  The events that are not a message arriving, the timer of call \<open>w\<close> firing, or its signal
  firing.
\<close>

fun leaves_waiting :: "nat \<Rightarrow> nat option \<Rightarrow> event \<Rightarrow> bool" where
  "leaves_waiting w signal (Push item) = False"
| "leaves_waiting w signal (Get timeout signal' now) = True"
| "leaves_waiting w signal (TimerFires w' now) = (w' \<noteq> w)"
| "leaves_waiting w signal (SignalFires sid) = (signal \<noteq> Some sid)"
| "leaves_waiting w signal (ThenRuns w') = True"

text \<open>A sample run of a queue with one subscriber.\<close>

definition demo_message :: "string \<Rightarrow> Message" where
  "demo_message s = \<lparr>m_topic = ''run:r1:stream:values'', m_data = JStr s\<rparr>"

definition demo_events :: "event list" where
  "demo_events =
     [Push (demo_message ''one''), Push (demo_message ''two''),
      Get 500 None 0, Get 500 None 1, Get 500 (Some 7) 2,
      Push (demo_message ''three''), ThenRuns 2]"

section \<open>Facts about plain objects\<close>

lemma rec_get_rec_set_same: "rec_get (rec_set k v r) k = Some v"
  by (induction r) auto

lemma rec_get_rec_set_other: "k' \<noteq> k \<Longrightarrow> rec_get (rec_set k v r) k' = rec_get r k'"
  by (induction r) auto

lemma set_rec_set: "set (rec_set k v r) \<subseteq> insert (k, v) (set r)"
  by (induction r) (auto split: if_splits)

lemma rec_get_Some_mem: "rec_get r k = Some v \<Longrightarrow> (k, v) \<in> set r"
  by (induction r) (auto split: if_splits)


lemma rec_set_mem: "(k, v) \<in> set (rec_set k v r)"
  by (induction r) auto

lemma update_first_mem:
  "\<exists>x \<in> set (rec_values r). P x \<Longrightarrow> \<exists>k. (k, f' ) \<in> set (update_first P (\<lambda>_. f') r)"
proof (induction r)
  case Nil
  then show ?case by (simp add: rec_values_def)
next
  case (Cons kv r)
  obtain k v where kv: "kv = (k, v)" by (cases kv)
  show ?case
  proof (cases "P v")
    case True
    then show ?thesis using kv by auto
  next
    case False
    with Cons.prems kv have "\<exists>x \<in> set (rec_values r). P x" by (auto simp: rec_values_def)
    from Cons.IH[OF this] obtain k' where "(k', f') \<in> set (update_first P (\<lambda>_. f') r)" by blast
    then show ?thesis using kv False by auto
  qed
qed

lemma rec_get_None_iff: "rec_get r k = None \<longleftrightarrow> k \<notin> fst ` set r"
  by (induction r) (auto split: if_splits)

lemma rec_get_object_assign:
  "distinct (map fst s) \<Longrightarrow>
   rec_get (object_assign t s) k = (case rec_get s k of Some v \<Rightarrow> Some v | None \<Rightarrow> rec_get t k)"
proof (induction s arbitrary: t)
  case Nil
  then show ?case by simp
next
  case (Cons kv s)
  obtain k' v where kv: "kv = (k', v)" by (cases kv)
  from Cons.prems kv have d: "distinct (map fst s)" and n: "rec_get s k' = None"
    by (auto simp: rec_get_None_iff)
  show ?case
    using Cons.IH[OF d, of "rec_set k' v t"] n kv
    by (auto simp: rec_get_rec_set_same rec_get_rec_set_other split: option.splits)
qed

lemma map_fst_rec_set:
  "map fst (rec_set k v r) = (if k \<in> set (map fst r) then map fst r else map fst r @ [k])"
  by (induction r) force+

lemma distinct_rec_set: "distinct (map fst r) \<Longrightarrow> distinct (map fst (rec_set k v r))"
  by (simp add: map_fst_rec_set)

lemma distinct_object_assign: "distinct (map fst t) \<Longrightarrow> distinct (map fst (object_assign t s))"
  by (induction s arbitrary: t) (auto simp: distinct_rec_set)

lemma distinct_object_assign_opt:
  "distinct (map fst t) \<Longrightarrow> distinct (map fst (object_assign_opt t s))"
  by (cases s) (simp_all add: object_assign_opt_def distinct_object_assign)

lemma rec_get_object_assign_opt:
  "keys_distinct s \<Longrightarrow>
   rec_get (object_assign_opt t s) k = (case prop_of s k of Some v \<Rightarrow> Some v | None \<Rightarrow> rec_get t k)"
  by (cases s) (simp_all add: object_assign_opt_def prop_of_def keys_distinct_def rec_get_object_assign)


lemma rec_get_rec_delete_other: "k' \<noteq> k \<Longrightarrow> rec_get (rec_delete k r) k' = rec_get r k'"
  by (induction r) (auto simp: rec_delete_def)

lemma rec_get_rec_delete_same: "rec_get (rec_delete k r) k = None"
  by (induction r) (auto simp: rec_delete_def)

section \<open>The picker\<close>

lemma rec_delete_rec_set_absent: "rec_get r k = None \<Longrightarrow> rec_delete k (rec_set k v r) = r"
  by (induction r) (auto simp: rec_delete_def split: if_splits)

lemma unlock_lock: "\<not> isLocked ctl runId \<Longrightarrow> unlock runId (snd (lock runId ctl)) = ctl"
  by (simp add: isLocked_def unlock_def lock_def rec_delete_rec_set_absent)

lemma retry_of_bump:
  "retry_of (STORE\<lparr>retry_counter := rec_set runId n (retry_counter STORE)\<rparr>) runId = n"
  by (simp add: retry_of_def rec_get_rec_set_same)

lemma next_loop_skip: "\<not> pickable W run \<Longrightarrow> next_loop (run # rest) W = next_loop rest W"
  by (auto simp: pickable_def Let_def split: option.splits)

lemma next_loop_pick:
  assumes "pickable W run"
  shows "next_loop (run # rest) W =
           ((item_of W run, at_yield W run) # fst (next_loop rest (resumed W run)),
            snd (next_loop rest (resumed W run)))"
proof -
  from assms obtain thread where th: "rec_get (threads (w_store W)) (r_thread_id run) = Some thread"
    and nl: "\<not> isLocked (w_control W) (r_run_id run)"
    by (auto simp: pickable_def)
  have u: "unlock (r_run_id run) (rec_set (r_run_id run) new_controller (w_control W)) = w_control W"
    using unlock_lock[OF nl] by (simp add: lock_def)
  show ?thesis
    using th nl
    by (simp add: Let_def lock_def item_of_def retry_of_bump at_yield_def resumed_def u
        split: prod.splits)
qed

lemma pickable_resumed: "pickable (resumed W run) = pickable W"
  by (simp add: pickable_def resumed_def fun_eq_iff)

lemma next_loop_frame:
  "w_control (snd (next_loop rs W)) = w_control W \<and>
   threads (w_store (snd (next_loop rs W))) = threads (w_store W) \<and>
   runs (w_store (snd (next_loop rs W))) = runs (w_store W)"
proof (induction rs arbitrary: W)
  case Nil
  then show ?case by simp
next
  case (Cons run rest)
  show ?case
  proof (cases "pickable W run")
    case False
    then show ?thesis using Cons.IH[of W] by (simp add: next_loop_skip del: next_loop.simps)
  next
    case True
    show ?thesis using Cons.IH[of "resumed W run"]
      by (simp add: next_loop_pick[OF True] resumed_def del: next_loop.simps)
  qed
qed

lemma next_loop_runs:
  "map (y_run \<circ> fst) (fst (next_loop rs W)) = filter (pickable W) rs"
proof (induction rs arbitrary: W)
  case Nil
  then show ?case by simp
next
  case (Cons run rest)
  show ?case
  proof (cases "pickable W run")
    case False
    then show ?thesis using Cons.IH[of W] by (simp add: next_loop_skip del: next_loop.simps)
  next
    case True
    show ?thesis using Cons.IH[of "resumed W run"] True
      by (simp add: next_loop_pick[OF True] pickable_resumed item_of_def del: next_loop.simps)
  qed
qed

lemma next_loop_yield_ok: "list_all yield_ok (fst (next_loop rs W))"
proof (induction rs arbitrary: W)
  case Nil
  then show ?case by simp
next
  case (Cons run rest)
  show ?case
  proof (cases "pickable W run")
    case False
    then show ?thesis using Cons.IH[of W] by (simp add: next_loop_skip del: next_loop.simps)
  next
    case True
    have "yield_ok (item_of W run, at_yield W run)"
      by (simp add: yield_ok_def item_of_def at_yield_def isLocked_def getControl_def
          rec_get_rec_set_same new_controller_def)
    then show ?thesis using Cons.IH[of "resumed W run"]
      by (simp add: next_loop_pick[OF True] del: next_loop.simps)
  qed
qed

lemma next_loop_attempts: "attempts_ok (w_store W) (fst (next_loop rs W))"
proof (induction rs arbitrary: W)
  case Nil
  then show ?case by simp
next
  case (Cons run rest)
  show ?case
  proof (cases "pickable W run")
    case False
    then show ?thesis using Cons.IH[of W] by (simp add: next_loop_skip del: next_loop.simps)
  next
    case True
    have "w_store (at_yield W run) = w_store (resumed W run)"
      by (simp add: at_yield_def resumed_def)
    then show ?thesis using Cons.IH[of "resumed W run"]
      by (simp add: next_loop_pick[OF True] item_of_def del: next_loop.simps)
  qed
qed

text \<open>
  Claim C1, as stated, fails. In the sample world, called at time 10: run \<open>c\<close> is
  pending, created at 10 (at, not before, the time of the call) and unlocked, and is not
  yielded; run \<open>d\<close> is pending, due and unlocked, and is not yielded, its thread being
  absent; runs \<open>a\<close> and \<open>b\<close> have the same creation time and come out as \<open>b\<close>, \<open>a\<close>,
  the order they are stored in, not the order of their ids.
\<close>

theorem next_picker_counterexample:
  "rec_values (runs (w_store picker_world)) =
     [picker_run ''b'' ''t1'' 5, picker_run ''a'' ''t1'' 5,
      picker_run ''c'' ''t1'' 10, picker_run ''d'' ''t9'' 1] \<and>
   r_status (picker_run ''c'' ''t1'' 10) = Pending \<and>
   r_created_at (picker_run ''c'' ''t1'' 10) = Date 10 \<and>
   \<not> isLocked (w_control picker_world) ''c'' \<and>
   r_status (picker_run ''d'' ''t9'' 1) = Pending \<and>
   r_created_at (picker_run ''d'' ''t9'' 1) = Date 1 \<and>
   \<not> isLocked (w_control picker_world) ''d'' \<and>
   r_created_at (picker_run ''a'' ''t1'' 5) = r_created_at (picker_run ''b'' ''t1'' 5) \<and>
   map (r_run_id \<circ> y_run \<circ> fst) (fst (Runs_next 10 picker_world)) = [''b'', ''a'']"
  by (simp add: Runs_next_def pendingRuns_def picker_world_def picker_run_def empty_store_def
      rec_values_def isLocked_def lock_def unlock_def rec_delete_def retry_of_def Let_def
      demo_thread_def created_time_def)

text \<open>
  Claim C1, amended. For every world and time \<open>now\<close>, the picker yields exactly the runs
  that are pending, created strictly before \<open>now\<close>, whose thread is in the store, and
  that are not locked in the stream bus; in ascending \<^verbatim>\<open>created_at\<close> order, runs of equal
  \<^verbatim>\<open>created_at\<close> in the order the store holds them. At each yield the run is locked
  under a fresh, unfired handle, which is the signal yielded, and its retry counter is
  the attempt yielded, one more than the counter before. When the picker is done every
  lock it took is released.
\<close>

theorem next_yields_eligible_fifo:
  "map (y_run \<circ> fst) (fst (Runs_next now W)) =
     sort_key created_time (filter (eligible now W) (rec_values (runs (w_store W)))) \<and>
   sorted (map created_time (map (y_run \<circ> fst) (fst (Runs_next now W)))) \<and>
   (\<forall>t. filter (\<lambda>run. created_time run = t) (map (y_run \<circ> fst) (fst (Runs_next now W))) =
        filter (\<lambda>run. created_time run = t)
          (filter (eligible now W) (rec_values (runs (w_store W))))) \<and>
   list_all yield_ok (fst (Runs_next now W)) \<and>
   attempts_ok (w_store W) (fst (Runs_next now W)) \<and>
   w_control (snd (Runs_next now W)) = w_control W"
proof -
  let ?all = "rec_values (runs (w_store W))"
  have e: "filter (pickable W) (filter (\<lambda>run. r_status run = Pending \<and> date_before (r_created_at run) now) ?all)
           = filter (eligible now W) ?all"
    by (auto simp: eligible_def pickable_def intro: filter_cong)
  have 1: "map (y_run \<circ> fst) (fst (Runs_next now W)) = sort_key created_time (filter (eligible now W) ?all)"
    unfolding Runs_next_def next_loop_runs pendingRuns_def filter_sort e ..
  have 2: "sorted (map created_time (sort_key created_time (filter (eligible now W) ?all)))"
    by (rule sorted_sort_key)
  have 3: "filter (\<lambda>run. created_time run = t) (sort_key created_time (filter (eligible now W) ?all))
           = filter (\<lambda>run. created_time run = t) (filter (eligible now W) ?all)" for t
    by (rule sort_key_stable)
  show ?thesis
    unfolding 1 using 2 3 1 next_loop_yield_ok[of "pendingRuns now (w_store W)" W]
      next_loop_attempts[of W "pendingRuns now (w_store W)"]
      next_loop_frame[of "pendingRuns now (w_store W)" W]
    by (simp add: Runs_next_def)
qed


theorem next_yields_eligible_fifo_witness:
  "map (r_run_id \<circ> y_run \<circ> fst) (fst (Runs_next 10 picker_world)) = [''b'', ''a''] \<and>
   map (y_attempt \<circ> fst) (fst (Runs_next 10 picker_world)) = [1, 1] \<and>
   list_all yield_ok (fst (Runs_next 10 picker_world)) \<and>
   w_control (snd (Runs_next 10 picker_world)) = []"
  using next_yields_eligible_fifo[of 10 picker_world]
  by (simp add: Runs_next_def pendingRuns_def picker_world_def picker_run_def empty_store_def
      rec_values_def isLocked_def lock_def unlock_def rec_delete_def retry_of_def Let_def
      demo_thread_def eligible_def created_time_def)

section \<open>Thread status derivation\<close>

lemma rec_get_foldl_interrupts:
  "\<forall>task \<in> set tasks. truthy (ct_interrupts task) \<Longrightarrow>
   rec_get (foldl interrupts_step acc tasks) k =
     (case map_of (rev (map (\<lambda>task. (ct_id task, ct_interrupts task)) tasks)) k of
        Some v \<Rightarrow> Some v
      | None \<Rightarrow> rec_get acc k)"
proof (induction tasks arbitrary: acc)
  case Nil
  then show ?case by simp
next
  case (Cons t ts)
  then show ?case
    by (auto simp: interrupts_step_def map_add_def rec_get_rec_set_same rec_get_rec_set_other
        split: option.splits)
qed


lemma list_ex_rec_values:
  "list_ex P (rec_values r) = (\<exists>(k, v) \<in> set r. P v)"
  by (force simp: rec_values_def list_ex_iff)

text \<open>
  Claim C2. For an existing thread, \<^verbatim>\<open>Threads.setStatus\<close> succeeds and leaves the thread
  with status \<open>error\<close> when an exception is given, else \<open>interrupted\<close> when the
  checkpoint has a non-empty \<^verbatim>\<open>next\<close>, else \<open>busy\<close> when a run of the store on this
  thread is pending, else \<open>idle\<close>; with the checkpoint's values, or none without a
  checkpoint; with interrupts mapping each task id to that task's interrupts (the last
  task of an id counts), or none without a checkpoint; and with \<^verbatim>\<open>updated_at\<close> set to
  the current time. Nothing else in the store changes. The interrupts of every task are
  truthy, as every value of their declared type \<^verbatim>\<open>Record<string, unknown>\<close> is.
\<close>

theorem setStatus_derivation:
  assumes thread: "rec_get (threads S) tid = Some t"
    and typed: "\<forall>cp. ss_checkpoint opts = Some cp \<longrightarrow>
                  (\<forall>task \<in> set (cp_tasks cp). truthy (ct_interrupts task))"
  shows "\<exists>t' S'.
      Threads_setStatus tid opts now S = (Inr (), S') \<and>
      rec_get (threads S') tid = Some t' \<and>
      t_status t' =
        (if ss_exception opts \<noteq> None then ThreadError
         else if (\<exists>cp. ss_checkpoint opts = Some cp \<and> cp_next cp \<noteq> []) then ThreadInterrupted
         else if (\<exists>(k, run) \<in> set (runs S). r_thread_id run = tid \<and> r_status run = Pending)
           then Busy
         else Idle) \<and>
      t_values t' = map_option cp_values (ss_checkpoint opts) \<and>
      (case ss_checkpoint opts of
         None \<Rightarrow> t_interrupts t' = None
       | Some cp \<Rightarrow>
           (\<exists>m. t_interrupts t' = Some m \<and>
             (\<forall>k. rec_get m k =
                map_of (rev (map (\<lambda>task. (ct_id task, ct_interrupts task)) (cp_tasks cp))) k))) \<and>
      t_updated_at t' = now \<and>
      t_thread_id t' = t_thread_id t \<and> t_created_at t' = t_created_at t \<and>
      t_metadata t' = t_metadata t \<and> t_config t' = t_config t \<and>
      (\<forall>k. k \<noteq> tid \<longrightarrow> rec_get (threads S') k = rec_get (threads S) k) \<and>
      runs S' = runs S \<and> assistants S' = assistants S \<and>
      assistant_versions S' = assistant_versions S \<and> retry_counter S' = retry_counter S"
proof (cases "ss_checkpoint opts")
  case None
  then show ?thesis using thread
    by (simp add: Threads_setStatus_def Let_def rec_get_rec_set_same rec_get_rec_set_other
        list_ex_rec_values)
next
  case (Some cp)
  with typed have tr: "\<forall>task \<in> set (cp_tasks cp). truthy (ct_interrupts task)" by simp
  have m: "rec_get (foldl interrupts_step [] (cp_tasks cp)) k =
           map_of (rev (map (\<lambda>task. (ct_id task, ct_interrupts task)) (cp_tasks cp))) k" for k
    using rec_get_foldl_interrupts[OF tr, of "[]" k] by (simp split: option.splits)
  show ?thesis using thread Some m
    by (simp add: Threads_setStatus_def Let_def rec_get_rec_set_same rec_get_rec_set_other
        list_ex_rec_values)
qed

theorem setStatus_derivation_witness:
  "\<exists>t' S'.
      Threads_setStatus ''t1'' \<lparr>ss_checkpoint = Some demo_checkpoint, ss_exception = None\<rparr> 7
        (empty_store\<lparr>threads := [(''t1'', demo_thread)]\<rparr>) = (Inr (), S') \<and>
      rec_get (threads S') ''t1'' = Some t' \<and>
      t_status t' = ThreadInterrupted \<and>
      t_values t' = Some [(''x'', JNum 1)] \<and>
      t_interrupts t' = Some [(''task1'', JArr [JStr ''ask''])] \<and>
      t_updated_at t' = 7"
  using setStatus_derivation
    [of "empty_store\<lparr>threads := [(''t1'', demo_thread)]\<rparr>" "''t1''" demo_thread
        "\<lparr>ss_checkpoint = Some demo_checkpoint, ss_exception = None\<rparr>" 7]
  by (simp add: Threads_setStatus_def Let_def demo_thread_def demo_checkpoint_def
      empty_store_def interrupts_step_def rec_values_def)

section \<open>Double arithmetic and computed dates\<close>

text \<open>
  \<open>floor_log2\<close> is the binary exponent: \<open>2^k \<le> a < 2^(k+1)\<close> for \<open>k = floor_log2 a\<close>.
\<close>

lemma floor_log2_le:
  assumes "0 < a"
  shows "2 powi (floor_log2 a) \<le> a"
proof (cases "1 \<le> a")
  case True
  let ?n = "\<lfloor>a\<rfloor>"
  from True have n: "0 < ?n" by simp
  then have b1: "1 \<le> bitlen ?n"
    using bitlen_eq_zero_iff[of ?n] bitlen_nonneg[of ?n] by linarith
  from bitlen_bounds[OF n] have "2 ^ nat (bitlen ?n - 1) \<le> ?n" by simp
  then have "(of_int (2 ^ nat (bitlen ?n - 1)) :: rat) \<le> of_int ?n" by (simp only: of_int_le_iff)
  also have "\<dots> \<le> a" by simp
  finally have "(2::rat) ^ nat (bitlen ?n - 1) \<le> a" by simp
  moreover have "(2::rat) powi (bitlen ?n - 1) = 2 ^ nat (bitlen ?n - 1)"
    using b1 by (simp add: power_int_def)
  ultimately show ?thesis using True by (simp add: floor_log2_def)
next
  case False
  let ?m = "\<lceil>1 / a\<rceil> - 1"
  let ?L = "bitlen ?m"
  from False assms have "1 < 1 / a" by (simp add: field_simps)
  then have "1 < \<lceil>1 / a\<rceil>" by (simp add: less_ceiling_iff)
  then have m: "0 < ?m" by simp
  from bitlen_bounds[OF m] have "?m < 2 ^ nat ?L" by simp
  then have "\<lceil>1 / a\<rceil> \<le> 2 ^ nat ?L" by simp
  then have "(of_int \<lceil>1 / a\<rceil> :: rat) \<le> of_int (2 ^ nat ?L)" by (simp only: of_int_le_iff)
  then have c: "(of_int \<lceil>1 / a\<rceil> :: rat) \<le> 2 ^ nat ?L" by simp
  have "1 / a \<le> of_int \<lceil>1 / a\<rceil>" by (rule le_of_int_ceiling)
  with c have "1 / a \<le> 2 ^ nat ?L" by linarith
  then have "1 \<le> a * 2 ^ nat ?L" using assms by (simp add: field_simps)
  then have "1 / 2 ^ nat ?L \<le> a" by (simp add: field_simps)
  moreover have "(2::rat) powi (- ?L) = 1 / 2 ^ nat ?L"
    using bitlen_nonneg[of ?m] by (simp add: power_int_def field_simps)
  ultimately show ?thesis using False by (simp add: floor_log2_def)
qed

lemma floor_log2_gt:
  assumes "0 < a"
  shows "a < 2 powi (floor_log2 a + 1)"
proof (cases "1 \<le> a")
  case True
  let ?n = "\<lfloor>a\<rfloor>"
  from True have n: "0 < ?n" by simp
  from bitlen_bounds[OF n] have "?n + 1 \<le> 2 ^ nat (bitlen ?n)" by simp
  then have "(of_int (?n + 1) :: rat) \<le> of_int (2 ^ nat (bitlen ?n))" by (simp only: of_int_le_iff)
  then have "(of_int ?n + 1 :: rat) \<le> 2 ^ nat (bitlen ?n)" by simp
  moreover have "a < of_int ?n + 1" by linarith
  ultimately have "a < 2 ^ nat (bitlen ?n)" by linarith
  moreover have "(2::rat) powi (bitlen ?n) = 2 ^ nat (bitlen ?n)"
    using bitlen_nonneg[of ?n] by (simp add: power_int_def)
  ultimately show ?thesis using True by (simp add: floor_log2_def)
next
  case False
  let ?m = "\<lceil>1 / a\<rceil> - 1"
  let ?L = "bitlen ?m"
  from False assms have "1 < 1 / a" by (simp add: field_simps)
  then have "1 < \<lceil>1 / a\<rceil>" by (simp add: less_ceiling_iff)
  then have m: "0 < ?m" by simp
  then have b1: "1 \<le> ?L"
    using bitlen_eq_zero_iff[of ?m] bitlen_nonneg[of ?m] by linarith
  from bitlen_bounds[OF m] have "2 ^ nat (?L - 1) \<le> ?m" by simp
  then have "(of_int (2 ^ nat (?L - 1)) :: rat) \<le> of_int ?m" by (simp only: of_int_le_iff)
  then have "(2 :: rat) ^ nat (?L - 1) \<le> of_int \<lceil>1 / a\<rceil> - 1" by simp
  moreover have "of_int \<lceil>1 / a\<rceil> - 1 < 1 / a" by linarith
  ultimately have "(2 :: rat) ^ nat (?L - 1) < 1 / a" by linarith
  then have "a * 2 ^ nat (?L - 1) < 1" using assms by (simp add: field_simps)
  then have "a < 1 / 2 ^ nat (?L - 1)" by (simp add: field_simps)
  moreover have "(2::rat) powi (- ?L + 1) = 1 / 2 ^ nat (?L - 1)"
  proof -
    have "- ?L + 1 = - int (nat (?L - 1))" using b1 by simp
    then show ?thesis by (simp only: power_int_minus power_int_of_nat) (simp add: field_simps)
  qed
  ultimately show ?thesis using False by (simp add: floor_log2_def)
qed


text \<open>
  A number with a significand of at most 53 bits and an exponent in range is a double:
  rounding leaves it as it is. In particular every integer below \<open>2^53\<close> in absolute
  value.
\<close>

lemma round_half_even_of_int: "round_half_even (of_int z) = z"
  by (simp add: round_half_even_def)

lemma round_half_even_ge: "\<lfloor>q\<rfloor> \<le> round_half_even q"
  by (simp add: round_half_even_def Let_def)

lemma to_double_exact:
  assumes i: "\<bar>i\<bar> < 2 ^ 53" and z: "- 1074 \<le> z" "z \<le> 971"
  shows "to_double (of_int i * 2 powi z) = Some (of_int i * 2 powi z)"
proof (cases "i = 0")
  case True
  then show ?thesis by (simp add: to_double_def)
next
  case False
  let ?x = "of_int i * 2 powi z :: rat"
  let ?a = "\<bar>?x\<bar>"
  have a: "?a = of_int \<bar>i\<bar> * 2 powi z"
    by (simp add: abs_mult)
  have pos: "0 < ?a" using False by simp
  let ?k = "floor_log2 ?a"
  let ?e = "max (?k - 52) (- 1074)"
  have "(of_int \<bar>i\<bar> :: rat) < of_int (2 ^ 53)" using i by (simp only: of_int_less_iff)
  then have "(of_int \<bar>i\<bar> :: rat) < 2 powi 53" by simp
  moreover have "(0::rat) < 2 powi z" by simp
  ultimately have "(of_int \<bar>i\<bar> :: rat) * 2 powi z < 2 powi 53 * 2 powi z"
    by (rule mult_strict_right_mono)
  also have "(2::rat) powi 53 * 2 powi z = 2 powi (53 + z)"
    by (simp add: power_int_add)
  finally have lt: "?a < 2 powi (53 + z)" unfolding a .
  have k: "?k < 53 + z"
  proof (rule ccontr)
    assume "\<not> ?k < 53 + z"
    then have "(2::rat) powi (53 + z) \<le> 2 powi ?k" by (intro power_int_increasing) simp_all
    with floor_log2_le[OF pos] lt show False by linarith
  qed
  have e: "?e \<le> z" using k z by simp
  define t where "t = nat (z - ?e)"
  have t: "int t = z - ?e" using e by (simp add: t_def)
  have q: "?a / 2 powi ?e = of_int (\<bar>i\<bar> * 2 ^ t)"
  proof -
    have "?a / 2 powi ?e = of_int \<bar>i\<bar> * 2 powi (z - ?e)"
      unfolding a by (simp add: power_int_diff)
    also have "(2::rat) powi (z - ?e) = 2 ^ t"
      using t by (metis power_int_of_nat)
    finally show ?thesis by simp
  qed
  have y: "of_int (\<bar>i\<bar> * 2 ^ t) * 2 powi ?e = ?a"
  proof -
    have "(of_int (\<bar>i\<bar> * 2 ^ t) :: rat) * 2 powi ?e = of_int \<bar>i\<bar> * (2 powi (int t) * 2 powi ?e)"
      by simp
    also have "(2::rat) powi (int t) * 2 powi ?e = 2 powi (int t + ?e)"
      by (simp add: power_int_add)
    also have "int t + ?e = z" using t by simp
    finally show ?thesis using a by simp
  qed
  have ov: "\<not> (2::rat) powi 1024 \<le> ?a"
  proof -
    have "(2::rat) powi (53 + z) \<le> 2 powi 1024" using z by (intro power_int_increasing) simp_all
    with lt show ?thesis by linarith
  qed
  have sg: "sgn ?x * ?a = ?x" by (simp add: sgn_mult_abs)
  have nz: "?x \<noteq> 0" using False by simp
  show ?thesis
    unfolding to_double_def Let_def q round_half_even_of_int y
    using nz ov sg by simp
qed

lemma to_double_of_int: "\<bar>i\<bar> < 2 ^ 53 \<Longrightarrow> to_double (of_int i) = Some (of_int i)"
  using to_double_exact[of i 0] by simp


text \<open>
  Rounding never takes a number below a power of two that it has reached.
\<close>

lemma to_double_big:
  assumes c: "2 powi c \<le> \<bar>x\<bar>" "- 1074 \<le> c" and d: "to_double x = Some y"
  shows "2 powi c \<le> \<bar>y\<bar>"
proof -
  let ?a = "\<bar>x\<bar>"
  let ?k = "floor_log2 ?a"
  let ?e = "max (?k - 52) (- 1074)"
  let ?m = "round_half_even (?a / 2 powi ?e)"
  have "(0::rat) < 2 powi c" by simp
  with c have pos: "0 < ?a" by linarith
  then have nz: "x \<noteq> 0" by simp
  have ck: "c \<le> ?k"
  proof (rule ccontr)
    assume "\<not> c \<le> ?k"
    then have "(2::rat) powi (?k + 1) \<le> 2 powi c" by (intro power_int_increasing) simp_all
    with floor_log2_gt[OF pos] c show False by linarith
  qed
  then have e: "?e \<le> ?k" using c by simp
  define t where "t = nat (?k - ?e)"
  have t: "int t = ?k - ?e" using e by (simp add: t_def)
  have pk: "(2::rat) powi ?k = 2 ^ t * 2 powi ?e"
  proof -
    have "(2::rat) ^ t * 2 powi ?e = 2 powi (int t) * 2 powi ?e" by simp
    also have "\<dots> = 2 powi (int t + ?e)" by (simp add: power_int_add)
    also have "int t + ?e = ?k" using t by simp
    finally show ?thesis by simp
  qed
  have "(2::rat) ^ t * 2 powi ?e \<le> ?a" using floor_log2_le[OF pos] pk by simp
  then have "(2::rat) ^ t \<le> ?a / 2 powi ?e" by (simp add: field_simps)
  then have "(of_int (2 ^ t) :: rat) \<le> ?a / 2 powi ?e" by simp
  then have "2 ^ t \<le> \<lfloor>?a / 2 powi ?e\<rfloor>" by (simp only: le_floor_iff)
  with round_half_even_ge[of "?a / 2 powi ?e"] have "2 ^ t \<le> ?m" by linarith
  then have "(of_int (2 ^ t) :: rat) \<le> of_int ?m" by (simp only: of_int_le_iff)
  then have "(2::rat) ^ t * 2 powi ?e \<le> of_int ?m * 2 powi ?e"
    by (intro mult_right_mono) simp_all
  then have ky: "(2::rat) powi ?k \<le> of_int ?m * 2 powi ?e" using pk by simp
  have "(2::rat) powi c \<le> 2 powi ?k" using ck by (intro power_int_increasing) simp_all
  with ky have cy: "(2::rat) powi c \<le> of_int ?m * 2 powi ?e" by linarith
  from d nz have "y = sgn x * (of_int ?m * 2 powi ?e)"
    by (simp add: to_double_def Let_def split: if_splits)
  then have "\<bar>y\<bar> = \<bar>of_int ?m * 2 powi ?e\<bar>" using nz by (simp add: abs_mult abs_sgn_eq)
  with cy show ?thesis by linarith
qed


text \<open>
  \<^verbatim>\<open>new Date(now.valueOf() + afterSeconds * 1000)\<close> for a whole number of seconds: the
  instant \<open>now + 1000 * n\<close> when it is a time value, Invalid Date when it is not.
\<close>

lemma TimeClip_of_int:
  "TimeClip (of_int t) = (if \<bar>t\<bar> \<le> 8640000000000000 then Date t else InvalidDate)"
proof -
  have "(8640000000000000 < \<bar>of_int t :: rat\<bar>) = (8640000000000000 < \<bar>t\<bar>)"
    by (metis of_int_abs of_int_less_iff of_int_numeral)
  then show ?thesis by (auto simp: TimeClip_def)
qed

lemma TimeClip_big: "2 powi 53 \<le> \<bar>y\<bar> \<Longrightarrow> TimeClip y = InvalidDate"
  by (simp add: TimeClip_def)


lemma date_after_whole:
  assumes now: "\<bar>now\<bar> \<le> 8640000000000000"
  shows "date_after now (of_int n) =
           (if \<bar>now + n * 1000\<bar> \<le> 8640000000000000 then Date (now + n * 1000) else InvalidDate)"
proof (cases "\<bar>125 * n\<bar> < 2 ^ 53")
  case True
  then have "\<bar>n\<bar> < 2 ^ 53" by linarith
  then have s: "to_double (of_int n) = Some (of_int n)" by (rule to_double_of_int)
  have eq: "(of_int n :: rat) * 1000 = of_int (125 * n) * 2 powi 3" by simp
  have p: "to_double (of_int n * 1000) = Some (of_int n * 1000)"
    unfolding eq by (rule to_double_exact[OF True]) simp_all
  have sum: "(of_int now :: rat) + of_int n * 1000 = of_int (now + n * 1000)" by simp
  show ?thesis
  proof (cases "\<bar>now + n * 1000\<bar> < 2 ^ 53")
    case True
    then have "to_double (of_int (now + n * 1000)) = Some (of_int (now + n * 1000))"
      by (rule to_double_of_int)
    then show ?thesis
      by (simp only: date_after_def s p sum option.case TimeClip_of_int)
  next
    case False
    then have "(of_int (2 ^ 53) :: rat) \<le> of_int \<bar>now + n * 1000\<bar>"
      by (simp only: of_int_le_iff)
    then have big: "(2::rat) powi 53 \<le> \<bar>of_int (now + n * 1000)\<bar>" by simp
    have "(case to_double (of_int (now + n * 1000)) of None \<Rightarrow> InvalidDate
            | Some time \<Rightarrow> TimeClip time) = InvalidDate"
      using to_double_big[OF big] by (auto split: option.splits intro: TimeClip_big)
    moreover have "\<not> \<bar>now + n * 1000\<bar> \<le> 8640000000000000" using False by simp
    ultimately show ?thesis
      by (simp only: date_after_def s p sum option.case if_False)
  qed
next
  case False
  then have n: "2 ^ 46 \<le> \<bar>n\<bar>" by simp
  with now have out: "\<not> \<bar>now + n * 1000\<bar> \<le> 8640000000000000" by simp
  from n have "(of_int (2 ^ 46) :: rat) \<le> of_int \<bar>n\<bar>" by (simp only: of_int_le_iff)
  then have bn: "(2::rat) powi 46 \<le> \<bar>of_int n\<bar>" by simp
  have "date_after now (of_int n) = InvalidDate"
  proof (cases "to_double (of_int n)")
    case None
    then show ?thesis by (simp add: date_after_def)
  next
    case (Some seconds)
    from to_double_big[OF bn _ Some] have "2 powi 46 \<le> \<bar>seconds\<bar>" by simp
    then have "2 ^ 46 * 1000 \<le> \<bar>seconds * 1000\<bar>" by (simp add: abs_mult)
    then have bs: "2 powi 55 \<le> \<bar>seconds * 1000\<bar>" by simp
    show ?thesis
    proof (cases "to_double (seconds * 1000)")
      case None
      then show ?thesis using Some by (simp add: date_after_def)
    next
      case millis: (Some millis)
      from to_double_big[OF bs _ millis] have "2 powi 55 \<le> \<bar>millis\<bar>" by simp
      then have m: "2 ^ 55 \<le> \<bar>millis\<bar>" by simp
      have "\<bar>of_int now :: rat\<bar> \<le> 8640000000000000"
        using now by (metis of_int_abs of_int_le_iff of_int_numeral)
      with m have "2 ^ 54 \<le> \<bar>of_int now + millis\<bar>" by simp
      then have bt: "2 powi 54 \<le> \<bar>of_int now + millis\<bar>" by simp
      show ?thesis
      proof (cases "to_double (of_int now + millis)")
        case None
        then show ?thesis using Some millis by (simp add: date_after_def)
      next
        case time: (Some time)
        from to_double_big[OF bt _ time] have "2 powi 54 \<le> \<bar>time\<bar>" by simp
        then have "TimeClip time = InvalidDate" by (simp add: TimeClip_def)
        then show ?thesis using Some millis time by (simp add: date_after_def)
      qed
    qed
  qed
  with out show ?thesis by simp
qed

lemma date_after_far: "date_after 100 10000000000000 = InvalidDate"
  using date_after_whole[of 100 10000000000000] by simp

lemma date_after_fraction: "date_after 100 (3 / 4096) = Date 100"
proof -
  have 1: "to_double (3 / 4096) = Some (3 / 4096)"
    using to_double_exact[of 3 "- 12"] by simp
  have 2: "to_double (375 / 512) = Some (375 / 512)"
    using to_double_exact[of 375 "- 9"] by simp
  have 3: "to_double (51575 / 512) = Some (51575 / 512)"
    using to_double_exact[of 51575 "- 9"] by simp
  have 4: "\<lfloor>51575 / 512 :: rat\<rfloor> = 100"
    by (rule floor_unique) simp_all
  show ?thesis by (simp add: date_after_def TimeClip_def 1 2 3 4)
qed

lemma date_after_two: "date_after 100 2 = Date 2100"
  using date_after_whole[of 100 2] by simp

section \<open>Runs.put: resolving the thread\<close>

lemma find_None_thread:
  "tid \<notin> t_thread_id ` set (rec_values ts) \<Longrightarrow>
   find (\<lambda>thread. Some (t_thread_id thread) = Some tid) (rec_values ts) = None"
  by (auto simp: find_None_iff)

lemma find_thread_Some:
  "find (\<lambda>thread. Some (t_thread_id thread) = Some tid) ts = Some found \<Longrightarrow> t_thread_id found = tid"
  by (auto simp: find_Some_iff)


lemma put_run_prevented:
  assumes "po_preventInsertInInflight options = Some True"
    and "filter (\<lambda>run. r_thread_id run = tid \<and> r_status run = Pending) (rec_values (runs S)) \<noteq> []"
  shows "put_run runId aid assistant kwargs options tid et now S =
           (Inr (filter (\<lambda>run. r_thread_id run = tid \<and> r_status run = Pending) (rec_values (runs S))), S)"
  using assms by (simp add: put_run_def Let_def)

lemma put_run_inserted:
  assumes "\<not> (po_preventInsertInInflight options = Some True \<and>
      filter (\<lambda>run. r_thread_id run = tid \<and> r_status run = Pending) (rec_values (runs S)) \<noteq> [])"
  shows "\<exists>newRun S'. put_run runId aid assistant kwargs options tid et now S =
           (Inr (newRun # filter (\<lambda>run. r_thread_id run = tid \<and> r_status run = Pending) (rec_values (runs S))), S') \<and>
         runs S' = rec_set runId newRun (runs S) \<and> threads S' = threads S \<and>
         r_run_id newRun = runId \<and> r_thread_id newRun = tid \<and> r_assistant_id newRun = aid \<and>
         r_created_at newRun = date_after now (case po_afterSeconds options of None \<Rightarrow> 0 | Some s \<Rightarrow> s) \<and>
         r_status newRun = (case po_status options of None \<Rightarrow> Pending | Some s \<Rightarrow> s)"
  using assms by (auto simp: put_run_def Let_def)

lemma put_run_threads: "threads (snd (put_run runId aid assistant kwargs options tid et now S)) = threads S"
  by (simp add: put_run_def Let_def)

lemma put_run_cases:
  "(po_preventInsertInInflight options = Some True \<and> inflight_of tid S \<noteq> [] \<and>
      put_run runId aid assistant kwargs options tid et now S = (Inr (inflight_of tid S), S)) \<or>
   (\<not> (po_preventInsertInInflight options = Some True \<and> inflight_of tid S \<noteq> []) \<and>
    (\<exists>newRun S'. put_run runId aid assistant kwargs options tid et now S =
           (Inr (newRun # inflight_of tid S), S') \<and>
         runs S' = rec_set runId newRun (runs S) \<and> threads S' = threads S \<and>
         r_run_id newRun = runId \<and> r_thread_id newRun = tid \<and> r_assistant_id newRun = aid \<and>
         r_created_at newRun = date_after now (case po_afterSeconds options of None \<Rightarrow> 0 | Some s \<Rightarrow> s) \<and>
         r_status newRun = (case po_status options of None \<Rightarrow> Pending | Some s \<Rightarrow> s)))"
  unfolding inflight_of_def
  using put_run_prevented[of options tid S runId aid assistant kwargs et now]
        put_run_inserted[of options tid S runId aid assistant kwargs et now]
  by blast

lemma Runs_put_resolved:
  assumes a: "rec_get (assistants S) aid = Some assistant"
    and r: "(\<exists>thread \<in> set (rec_values (threads S)). Some (t_thread_id thread) = po_threadId options) \<or>
            po_threadId options = None \<or> po_ifNotExists options = Some Create"
  shows "\<exists>et S1. Runs_put runId aid kwargs options fresh now S =
            put_run runId aid assistant kwargs options
              (case po_threadId options of None \<Rightarrow> fresh | Some t \<Rightarrow> t) et now S1 \<and>
          runs S1 = runs S \<and>
          (\<exists>thread \<in> set (rec_values (threads S1)).
             t_thread_id thread = (case po_threadId options of None \<Rightarrow> fresh | Some t \<Rightarrow> t) \<and>
             t_status thread = Busy)"
proof (cases "find (\<lambda>thread. Some (t_thread_id thread) = po_threadId options) (rec_values (threads S))")
  case None
  then have "\<not> (\<exists>thread \<in> set (rec_values (threads S)). Some (t_thread_id thread) = po_threadId options)"
    by (auto simp: find_None_iff)
  with r have c: "po_threadId options = None \<or> po_ifNotExists options = Some Create" by blast
  let ?tid = "case po_threadId options of None \<Rightarrow> fresh | Some t \<Rightarrow> t"
  obtain thread S1 where
    eq: "Runs_put runId aid kwargs options fresh now S =
          put_run runId aid assistant kwargs options ?tid None now S1"
    and S1: "S1 = S\<lparr>threads := rec_set ?tid thread (threads S)\<rparr>"
    and th: "t_thread_id thread = ?tid" "t_status thread = Busy"
    using a None c by (auto simp: Runs_put_def Let_def)
  have "(?tid, thread) \<in> set (threads S1)" using S1 by (simp add: rec_set_mem)
  then have mem: "thread \<in> set (rec_values (threads S1))" by (force simp: rec_values_def)
  have rs: "runs S1 = runs S" using S1 by simp
  show ?thesis using eq rs th mem by blast
next
  case (Some found)
  then have f: "Some (t_thread_id found) = po_threadId options" "found \<in> set (rec_values (threads S))"
    by (auto simp: find_Some_iff)
  then have tid: "po_threadId options = Some (t_thread_id found)" by simp
  obtain updated S1 where
    eq: "Runs_put runId aid kwargs options fresh now S =
          put_run runId aid assistant kwargs options (t_thread_id found) (Some updated) now S1"
    and S1: "S1 = S\<lparr>threads := update_first (\<lambda>thread. Some (t_thread_id thread) = po_threadId options)
                               (\<lambda>_. updated) (threads S)\<rparr>"
    and th: "t_thread_id updated = t_thread_id found" "t_status updated = Busy"
    using a Some tid by (auto simp: Runs_put_def Let_def)
  have "\<exists>k. (k, updated) \<in> set (threads S1)"
    unfolding S1 using f by (auto intro!: update_first_mem)
  then have mem: "updated \<in> set (rec_values (threads S1))" by (force simp: rec_values_def)
  have rs: "runs S1 = runs S" using S1 by simp
  have eq': "Runs_put runId aid kwargs options fresh now S =
          put_run runId aid assistant kwargs options
            (case po_threadId options of None \<Rightarrow> fresh | Some t \<Rightarrow> t) (Some updated) now S1"
    using eq tid by simp
  have th': "t_thread_id updated = (case po_threadId options of None \<Rightarrow> fresh | Some t \<Rightarrow> t)"
    using th tid by simp
  show ?thesis using eq' rs th' th(2) mem by blast
qed

lemma rec_get_three_layers:
  assumes "keys_distinct A" "keys_distinct T" "keys_distinct C"
  shows "rec_get (object_assign_opt (object_assign_opt (object_assign_opt [] A) T) C) k = layered A T C k"
  using assms
  by (simp add: rec_get_object_assign_opt layered_def prop_of_def split: option.splits)

lemma layered_idem:
  assumes "keys_distinct A" "keys_distinct T" "keys_distinct C"
  shows "layered A (Some (object_assign_opt (object_assign_opt (object_assign_opt [] A) T) C)) C k
         = layered A T C k"
  using rec_get_three_layers[OF assms, of k]
  by (auto simp: layered_def prop_of_def split: option.splits)

lemma run_configurable_lookup:
  assumes "keys_distinct (configurable (a_config assistant))"
    "keys_distinct (configurable_of (Option.bind et t_config))"
    "keys_distinct (configurable config)"
  shows "rec_get (run_configurable runId tid aid assistant et config userId) k =
     (if k = ''run_id'' then Some (JStr runId)
      else if k = ''thread_id'' then Some (JStr tid)
      else if k = ''graph_id'' then Some (JStr (a_graph_id assistant))
      else if k = ''assistant_id'' then Some (JStr aid)
      else if k = ''user_id'' then
        Some (stored
             (coalesce (prop_of (configurable config) ''user_id'')
                (coalesce (prop_of (configurable_of (Option.bind et t_config)) ''user_id'')
                   (coalesce (prop_of (configurable (a_config assistant)) ''user_id'')
                      (map_option JStr userId)))))
      else layered (configurable (a_config assistant)) (configurable_of (Option.bind et t_config))
             (configurable config) k)"
  unfolding run_configurable_def
  by (subst rec_get_object_assign) (simp_all add: rec_get_three_layers[OF assms])


lemma configurable_of_kwargs:
  "configurable (case kw_config kwargs of None \<Rightarrow> empty_config | Some c \<Rightarrow> c) = configurable_of (kw_config kwargs)"
  by (simp add: configurable_of_def empty_config_def split: option.splits)

lemma put_run_config:
  assumes "\<not> (po_preventInsertInInflight options = Some True \<and> inflight_of tid S \<noteq> [])"
  shows "\<exists>newRun S' cfg. put_run runId aid assistant kwargs options tid et now S =
           (Inr (newRun # inflight_of tid S), S') \<and>
         kw_config (r_kwargs newRun) = Some cfg \<and>
         configurable cfg = Some (run_configurable runId tid aid assistant et
            (case kw_config kwargs of None \<Rightarrow> empty_config | Some c \<Rightarrow> c) (po_userId options))"
  using assms
  by (auto simp: put_run_def Let_def inflight_of_def assign_config_def or_else_def empty_config_def)

lemma Runs_put_resolved_thread:
  assumes a: "rec_get (assistants S) aid = Some assistant"
    and r: "(\<exists>thread \<in> set (rec_values (threads S)). Some (t_thread_id thread) = po_threadId options) \<or>
            po_threadId options = None \<or> po_ifNotExists options = Some Create"
    and T: "T = configurable_of (Option.bind
              (find (\<lambda>thread. Some (t_thread_id thread) = po_threadId options) (rec_values (threads S)))
              t_config)"
  shows "\<exists>et S1. Runs_put runId aid kwargs options fresh now S =
            put_run runId aid assistant kwargs options
              (case po_threadId options of None \<Rightarrow> fresh | Some t \<Rightarrow> t) et now S1 \<and>
          runs S1 = runs S \<and>
          (configurable_of (Option.bind et t_config) = T \<or>
           configurable_of (Option.bind et t_config) =
             Some (object_assign_opt
                    (object_assign_opt (object_assign_opt [] (configurable (a_config assistant))) T)
                    (configurable_of (kw_config kwargs))))"
proof (cases "find (\<lambda>thread. Some (t_thread_id thread) = po_threadId options) (rec_values (threads S))")
  case None
  then have "\<not> (\<exists>thread \<in> set (rec_values (threads S)). Some (t_thread_id thread) = po_threadId options)"
    by (auto simp: find_None_iff)
  with r have c: "po_threadId options = None \<or> po_ifNotExists options = Some Create" by blast
  let ?tid = "case po_threadId options of None \<Rightarrow> fresh | Some t \<Rightarrow> t"
  obtain S1 where
    eq: "Runs_put runId aid kwargs options fresh now S =
          put_run runId aid assistant kwargs options ?tid None now S1"
    and rs: "runs S1 = runs S"
    using a None c by (auto simp: Runs_put_def Let_def)
  have "configurable_of (Option.bind None t_config) = T"
    using T None by (simp add: configurable_of_def)
  then show ?thesis using eq rs by blast
next
  case (Some found)
  then have "Some (t_thread_id found) = po_threadId options" by (auto simp: find_Some_iff)
  then have tid: "po_threadId options = Some (t_thread_id found)" by simp
  have T': "T = configurable_of (t_config found)" using T Some by simp
  obtain updated S1 where
    eq: "Runs_put runId aid kwargs options fresh now S =
          put_run runId aid assistant kwargs options (t_thread_id found) (Some updated) now S1"
    and rs: "runs S1 = runs S"
    and up: "t_config updated = t_config found \<or>
             t_config updated = Some (assign_config
                                       (assign_config
                                          (assign_config_opt
                                             (assign_config empty_config (a_config assistant))
                                             (t_config found))
                                          (case kw_config kwargs of None \<Rightarrow> empty_config | Some c \<Rightarrow> c))
                                       (empty_config\<lparr>configurable := Some
                                          (object_assign_opt
                                             (object_assign_opt
                                                (object_assign_opt [] (configurable (a_config assistant)))
                                                (configurable_of (t_config found)))
                                             (configurable (case kw_config kwargs of None \<Rightarrow> empty_config | Some c \<Rightarrow> c)))\<rparr>))"
    using a Some tid by (auto simp: Runs_put_def Let_def)
  have eq': "Runs_put runId aid kwargs options fresh now S =
          put_run runId aid assistant kwargs options
            (case po_threadId options of None \<Rightarrow> fresh | Some t \<Rightarrow> t) (Some updated) now S1"
    using eq tid by simp
  from up have "configurable_of (Option.bind (Some updated) t_config) = T \<or>
           configurable_of (Option.bind (Some updated) t_config) =
             Some (object_assign_opt
                    (object_assign_opt (object_assign_opt [] (configurable (a_config assistant))) T)
                    (configurable_of (kw_config kwargs)))"
  proof
    assume "t_config updated = t_config found"
    then show ?thesis using T' by simp
  next
    assume u: "t_config updated = Some (assign_config
                                       (assign_config
                                          (assign_config_opt
                                             (assign_config empty_config (a_config assistant))
                                             (t_config found))
                                          (case kw_config kwargs of None \<Rightarrow> empty_config | Some c \<Rightarrow> c))
                                       (empty_config\<lparr>configurable := Some
                                          (object_assign_opt
                                             (object_assign_opt
                                                (object_assign_opt [] (configurable (a_config assistant)))
                                                (configurable_of (t_config found)))
                                             (configurable (case kw_config kwargs of None \<Rightarrow> empty_config | Some c \<Rightarrow> c)))\<rparr>))"
    have "configurable_of (t_config updated) =
            Some (object_assign_opt
                    (object_assign_opt (object_assign_opt [] (configurable (a_config assistant)))
                       (configurable_of (t_config found)))
                    (configurable_of (kw_config kwargs)))"
      unfolding u configurable_of_kwargs
      by (simp add: configurable_of_def assign_config_def or_else_def empty_config_def)
    then show ?thesis using T' by simp
  qed
  then show ?thesis using eq' rs by blast
qed

section \<open>Runs.put: runs in flight\<close>

text \<open>
  Claim C4, as stated, fails on \<^verbatim>\<open>created_at\<close>. The date is
  \<^verbatim>\<open>new Date(now.valueOf() + afterSeconds * 1000)\<close>, computed on doubles and clipped to a
  time value. With the clock at 100 ms, \<^verbatim>\<open>afterSeconds\<close> = \<open>10^13\<close> stores Invalid Date,
  not the instant \<open>10^16 + 100\<close> ms, and \<^verbatim>\<open>afterSeconds\<close> = 3/4096 (0.732 ms) stores the
  instant 100 ms, the fraction of a millisecond being dropped.
\<close>

theorem put_created_at_counterexample:
  "(\<exists>newRun S'.
      Runs_put ''r1'' ''a1'' demo_kwargs
        (default_put_options\<lparr>po_threadId := Some ''t1'', po_afterSeconds := Some 10000000000000\<rparr>)
        ''u1'' 100 demo_store
      = (Inr [newRun], S') \<and>
      r_created_at newRun = InvalidDate \<and> rec_get (runs S') ''r1'' = Some newRun) \<and>
   (\<exists>newRun S'.
      Runs_put ''r1'' ''a1'' demo_kwargs
        (default_put_options\<lparr>po_threadId := Some ''t1'', po_afterSeconds := Some (3 / 4096)\<rparr>)
        ''u1'' 100 demo_store
      = (Inr [newRun], S') \<and>
      r_created_at newRun = Date 100 \<and> rec_get (runs S') ''r1'' = Some newRun)"
  by (simp add: Runs_put_def put_run_def Let_def demo_store_def empty_store_def
      default_put_options_def rec_values_def demo_thread_def inflight_of_def
      date_after_far date_after_fraction rec_get_rec_set_same)

text \<open>
  Claim C4, amended. Take a call of \<^verbatim>\<open>Runs.put\<close> whose assistant exists and whose thread
  resolves: the named thread exists, or no thread is named, or \<^verbatim>\<open>ifNotExists\<close> is
  \<open>create\<close>. After the call the resolved thread is in the store. If
  \<^verbatim>\<open>preventInsertInInflight\<close> is set and the thread has a pending run, the call returns
  exactly the pending runs of the thread, as they are, and the runs of the store are
  unchanged. Otherwise it returns a new run followed by those pending runs, and the new
  run is stored under its id, the other runs being as before. Its \<^verbatim>\<open>created_at\<close> is
  \<^verbatim>\<open>new Date(now.valueOf() + afterSeconds * 1000)\<close> as JavaScript computes it
  (\<open>date_after\<close>). When \<^verbatim>\<open>afterSeconds\<close> is a whole number \<open>n\<close> and the clock is a valid
  date, that is the instant \<open>now + 1000 * n\<close> ms if it lies within 8.64e15 ms of the
  epoch, and Invalid Date if it does not.
\<close>

theorem put_inflight_policy:
  assumes a: "rec_get (assistants S) aid = Some assistant"
    and r: "(\<exists>thread \<in> set (rec_values (threads S)). Some (t_thread_id thread) = po_threadId options) \<or>
            po_threadId options = None \<or> po_ifNotExists options = Some Create"
    and tid: "tid = (case po_threadId options of None \<Rightarrow> fresh | Some t \<Rightarrow> t)"
    and sec: "afterSeconds = (case po_afterSeconds options of None \<Rightarrow> 0 | Some s \<Rightarrow> s)"
    and res: "Runs_put runId aid kwargs options fresh now S = (result, S')"
  shows "(\<exists>thread \<in> set (rec_values (threads S')). t_thread_id thread = tid) \<and>
         (if po_preventInsertInInflight options = Some True \<and> inflight_of tid S \<noteq> []
          then result = Inr (inflight_of tid S) \<and> runs S' = runs S
          else (\<exists>newRun.
                  result = Inr (newRun # inflight_of tid S) \<and>
                  r_created_at newRun = date_after now afterSeconds \<and>
                  (\<forall>n. \<bar>now\<bar> \<le> 8640000000000000 \<and> afterSeconds = of_int n \<longrightarrow>
                       r_created_at newRun =
                         (if \<bar>now + n * 1000\<bar> \<le> 8640000000000000
                          then Date (now + n * 1000) else InvalidDate)) \<and>
                  r_run_id newRun = runId \<and> r_thread_id newRun = tid \<and>
                  r_assistant_id newRun = aid \<and>
                  rec_get (runs S') runId = Some newRun \<and>
                  (\<forall>k. k \<noteq> runId \<longrightarrow> rec_get (runs S') k = rec_get (runs S) k)))"
proof -
  from Runs_put_resolved[OF a r, of runId kwargs fresh now] obtain et S1 where
    eq: "Runs_put runId aid kwargs options fresh now S =
           put_run runId aid assistant kwargs options tid et now S1"
    and rs: "runs S1 = runs S"
    and th: "\<exists>thread \<in> set (rec_values (threads S1)). t_thread_id thread = tid \<and> t_status thread = Busy"
    unfolding tid by blast
  have inf: "inflight_of tid S1 = inflight_of tid S" by (simp add: inflight_of_def rs)
  have "threads S' = threads S1"
    using put_run_threads[of runId aid assistant kwargs options tid et now S1] eq res
    by (metis snd_conv)
  with th have 1: "\<exists>thread \<in> set (rec_values (threads S')). t_thread_id thread = tid" by auto
  from put_run_cases[of options tid S1 runId aid assistant kwargs et now]
  have 2: "if po_preventInsertInInflight options = Some True \<and> inflight_of tid S \<noteq> []
          then result = Inr (inflight_of tid S) \<and> runs S' = runs S
          else (\<exists>newRun.
                  result = Inr (newRun # inflight_of tid S) \<and>
                  r_created_at newRun =
                    date_after now (case po_afterSeconds options of None \<Rightarrow> 0 | Some s \<Rightarrow> s) \<and>
                  r_run_id newRun = runId \<and> r_thread_id newRun = tid \<and>
                  r_assistant_id newRun = aid \<and>
                  rec_get (runs S') runId = Some newRun \<and>
                  (\<forall>k. k \<noteq> runId \<longrightarrow> rec_get (runs S') k = rec_get (runs S) k))"
  proof
    assume "po_preventInsertInInflight options = Some True \<and> inflight_of tid S1 \<noteq> [] \<and>
      put_run runId aid assistant kwargs options tid et now S1 = (Inr (inflight_of tid S1), S1)"
    then show ?thesis using eq res rs inf by auto
  next
    assume h: "\<not> (po_preventInsertInInflight options = Some True \<and> inflight_of tid S1 \<noteq> []) \<and>
      (\<exists>newRun S'. put_run runId aid assistant kwargs options tid et now S1 =
           (Inr (newRun # inflight_of tid S1), S') \<and>
         runs S' = rec_set runId newRun (runs S1) \<and> threads S' = threads S1 \<and>
         r_run_id newRun = runId \<and> r_thread_id newRun = tid \<and> r_assistant_id newRun = aid \<and>
         r_created_at newRun = date_after now (case po_afterSeconds options of None \<Rightarrow> 0 | Some s \<Rightarrow> s) \<and>
         r_status newRun = (case po_status options of None \<Rightarrow> Pending | Some s \<Rightarrow> s))"
    then obtain newRun S2 where
      p: "put_run runId aid assistant kwargs options tid et now S1 = (Inr (newRun # inflight_of tid S1), S2)"
      and q: "runs S2 = rec_set runId newRun (runs S1)"
         "r_run_id newRun = runId" "r_thread_id newRun = tid" "r_assistant_id newRun = aid"
         "r_created_at newRun = date_after now (case po_afterSeconds options of None \<Rightarrow> 0 | Some s \<Rightarrow> s)"
      by blast
    from p eq res have "result = Inr (newRun # inflight_of tid S1)" "S' = S2" by auto
    then show ?thesis using h q rs inf
      by (auto simp: rec_get_rec_set_same rec_get_rec_set_other)
  qed
  show ?thesis
  proof (cases "po_preventInsertInInflight options = Some True \<and> inflight_of tid S \<noteq> []")
    case True
    with 1 2 show ?thesis by simp
  next
    case False
    with 2 obtain newRun where n: "result = Inr (newRun # inflight_of tid S)"
      "r_created_at newRun = date_after now afterSeconds"
      "r_run_id newRun = runId" "r_thread_id newRun = tid" "r_assistant_id newRun = aid"
      "rec_get (runs S') runId = Some newRun"
      "\<forall>k. k \<noteq> runId \<longrightarrow> rec_get (runs S') k = rec_get (runs S) k"
      unfolding sec by auto
    have "\<forall>n. \<bar>now\<bar> \<le> 8640000000000000 \<and> afterSeconds = of_int n \<longrightarrow>
               r_created_at newRun =
                 (if \<bar>now + n * 1000\<bar> \<le> 8640000000000000
                  then Date (now + n * 1000) else InvalidDate)"
      using n(2) by (auto simp: date_after_whole)
    with 1 False n show ?thesis by auto
  qed
qed


theorem put_inflight_policy_witness:
  "Runs_put ''r1'' ''a1'' demo_kwargs
     (default_put_options\<lparr>po_threadId := Some ''t1'', po_preventInsertInInflight := Some True\<rparr>)
     ''u1'' 100 (demo_store\<lparr>runs := [(''r0'', demo_run)]\<rparr>)
   = (Inr [demo_run], demo_store\<lparr>runs := [(''r0'', demo_run)]\<rparr>) \<and>
   (\<exists>newRun S'.
      Runs_put ''r1'' ''a1'' demo_kwargs
        (default_put_options\<lparr>po_threadId := Some ''t1'', po_afterSeconds := Some 2\<rparr>)
        ''u1'' 100 (demo_store\<lparr>runs := [(''r0'', demo_run)]\<rparr>)
      = (Inr [newRun, demo_run], S') \<and>
      r_created_at newRun = Date 2100 \<and> map fst (runs S') = [''r0'', ''r1''])"
  using put_inflight_policy
    [of "demo_store\<lparr>runs := [(''r0'', demo_run)]\<rparr>" "''a1''" demo_assistant
        "default_put_options\<lparr>po_threadId := Some ''t1'', po_preventInsertInInflight := Some True\<rparr>"
        "''t1''" "''u1''" 0 "''r1''" demo_kwargs 100
        "Inr [demo_run]" "demo_store\<lparr>runs := [(''r0'', demo_run)]\<rparr>"]
  by (simp add: Runs_put_def put_run_def Let_def demo_store_def empty_store_def
      default_put_options_def rec_values_def demo_thread_def demo_run_def inflight_of_def
      date_after_two)

section \<open>Runs.put: the configurable of a new run\<close>

text \<open>
  Claim C5, as stated, fails: the configurable of a new run is not a deep merge. Here the
  assistant configures \<open>model = {name: small, temp: 1}\<close> and the caller
  \<open>model = {name: large}\<close>; the run gets the caller's \<open>model\<close> whole, without
  \<open>temp\<close>, where a deep merge keeps \<open>temp\<close>.
\<close>

theorem put_configurable_deep_counterexample:
  "configurable (a_config demo_assistant) =
     Some [(''model'', JObj [(''name'', JStr ''small''), (''temp'', JNum 1)])] \<and>
   configurable_of (t_config demo_thread) = None \<and>
   configurable_of (kw_config demo_kwargs) = Some [(''model'', JObj [(''name'', JStr ''large'')])] \<and>
   prop_of (created_configurable
       (Runs_put ''r1'' ''a1'' demo_kwargs (default_put_options\<lparr>po_threadId := Some ''t1''\<rparr>)
          ''u1'' 100 demo_store)) ''model''
     = Some (JObj [(''name'', JStr ''large'')]) \<and>
   rec_get (deep_merge_spec
              (deep_merge_spec
                 (deep_merge_spec [] [(''model'', JObj [(''name'', JStr ''small''), (''temp'', JNum 1)])])
                 [])
              [(''model'', JObj [(''name'', JStr ''large'')])]) ''model''
     = Some (JObj [(''name'', JStr ''large''), (''temp'', JNum 1)])"
  by (simp add: created_configurable_def Runs_put_def put_run_def run_configurable_def Let_def
      demo_store_def empty_store_def default_put_options_def rec_values_def demo_thread_def
      demo_assistant_def demo_kwargs_def empty_config_def configurable_of_def prop_of_def
      object_assign_opt_def assign_config_def or_else_def)

text \<open>
  Claim C5, amended. For a run created by \<^verbatim>\<open>Runs.put\<close>, the configurable stored in the
  run's \<^verbatim>\<open>kwargs.config\<close> is the shallow merge (\<^verbatim>\<open>Object.assign\<close>) of the assistant's
  configurable, then the thread's (as it was before the call), then the caller's: at each
  top-level key the latest layer that has the key gives the whole value. It is extended
  with \<^verbatim>\<open>run_id\<close>, \<^verbatim>\<open>thread_id\<close>, \<^verbatim>\<open>graph_id\<close>, \<^verbatim>\<open>assistant_id\<close> and a \<^verbatim>\<open>user_id\<close>
  key, which holds the caller's \<^verbatim>\<open>userId\<close> when no layer has a \<^verbatim>\<open>user_id\<close>.
\<close>

theorem put_configurable_shallow:
  assumes a: "rec_get (assistants S) aid = Some assistant"
    and r: "(\<exists>thread \<in> set (rec_values (threads S)). Some (t_thread_id thread) = po_threadId options) \<or>
            po_threadId options = None \<or> po_ifNotExists options = Some Create"
    and tid: "tid = (case po_threadId options of None \<Rightarrow> fresh | Some t \<Rightarrow> t)"
    and ins: "\<not> (po_preventInsertInInflight options = Some True \<and> inflight_of tid S \<noteq> [])"
    and A: "A = configurable (a_config assistant)"
    and T: "T = configurable_of (Option.bind
              (find (\<lambda>thread. Some (t_thread_id thread) = po_threadId options) (rec_values (threads S)))
              t_config)"
    and C: "C = configurable_of (kw_config kwargs)"
    and d: "keys_distinct A" "keys_distinct T" "keys_distinct C"
  shows "\<exists>newRun S' cfg c.
      Runs_put runId aid kwargs options fresh now S = (Inr (newRun # inflight_of tid S), S') \<and>
      kw_config (r_kwargs newRun) = Some cfg \<and> configurable cfg = Some c \<and>
      rec_get c ''run_id'' = Some (JStr runId) \<and>
      rec_get c ''thread_id'' = Some (JStr tid) \<and>
      rec_get c ''graph_id'' = Some (JStr (a_graph_id assistant)) \<and>
      rec_get c ''assistant_id'' = Some (JStr aid) \<and>
      rec_get c ''user_id'' \<noteq> None \<and>
      (layered A T C ''user_id'' = None \<longrightarrow>
         rec_get c ''user_id'' = Some (stored (map_option JStr (po_userId options)))) \<and>
      (\<forall>k. k \<notin> synthesized_keys \<longrightarrow> rec_get c k = layered A T C k)"
proof -
  from Runs_put_resolved_thread[OF a r T, of runId kwargs fresh now] obtain et S1 where
    eq: "Runs_put runId aid kwargs options fresh now S =
           put_run runId aid assistant kwargs options tid et now S1"
    and rs: "runs S1 = runs S"
    and et: "configurable_of (Option.bind et t_config) = T \<or>
             configurable_of (Option.bind et t_config) =
               Some (object_assign_opt (object_assign_opt (object_assign_opt [] A) T) C)"
    unfolding tid A C by blast
  let ?E = "configurable_of (Option.bind et t_config)"
  let ?config = "case kw_config kwargs of None \<Rightarrow> empty_config | Some c \<Rightarrow> c"
  have cC: "configurable ?config = C" unfolding C by (rule configurable_of_kwargs)
  have dE: "keys_distinct ?E"
    using et d(2) by (auto simp: keys_distinct_def distinct_object_assign_opt)
  have lay: "layered A ?E C k = layered A T C k" for k
    using et layered_idem[OF d, of k] by auto
  have inf: "inflight_of tid S1 = inflight_of tid S" by (simp add: inflight_of_def rs)
  from ins inf have "\<not> (po_preventInsertInInflight options = Some True \<and> inflight_of tid S1 \<noteq> [])"
    by simp
  from put_run_config[OF this, of runId aid assistant kwargs et now] obtain newRun S' cfg where
    p: "put_run runId aid assistant kwargs options tid et now S1 = (Inr (newRun # inflight_of tid S1), S')"
    and k: "kw_config (r_kwargs newRun) = Some cfg"
    and c: "configurable cfg = Some (run_configurable runId tid aid assistant et ?config (po_userId options))"
    by blast
  let ?c = "run_configurable runId tid aid assistant et ?config (po_userId options)"
  have look: "rec_get ?c k =
     (if k = ''run_id'' then Some (JStr runId)
      else if k = ''thread_id'' then Some (JStr tid)
      else if k = ''graph_id'' then Some (JStr (a_graph_id assistant))
      else if k = ''assistant_id'' then Some (JStr aid)
      else if k = ''user_id'' then
        Some (stored
             (coalesce (prop_of C ''user_id'')
                (coalesce (prop_of ?E ''user_id'')
                   (coalesce (prop_of A ''user_id'')
                      (map_option JStr (po_userId options))))))
      else layered A T C k)" for k
    using run_configurable_lookup[of assistant et ?config runId tid aid "po_userId options" k]
      d dE lay[of k] unfolding cC A[symmetric] by simp
  have uid: "rec_get ?c ''user_id'' = Some (stored (map_option JStr (po_userId options)))"
    if "layered A T C ''user_id'' = None"
  proof -
    from that lay[of "''user_id''"] have "layered A ?E C ''user_id'' = None" by simp
    then have "prop_of C ''user_id'' = None" "prop_of ?E ''user_id'' = None" "prop_of A ''user_id'' = None"
      by (auto simp: layered_def split: option.splits)
    then show ?thesis by (simp add: look coalesce_def is_nullish_def)
  qed
  have res: "Runs_put runId aid kwargs options fresh now S = (Inr (newRun # inflight_of tid S), S')"
    using eq p inf by simp
  show ?thesis
  proof (intro exI conjI)
    show "Runs_put runId aid kwargs options fresh now S = (Inr (newRun # inflight_of tid S), S')"
      by (rule res)
    show "kw_config (r_kwargs newRun) = Some cfg" by (rule k)
    show "configurable cfg = Some ?c" by (rule c)
    show "rec_get ?c ''run_id'' = Some (JStr runId)" by (simp add: look)
    show "rec_get ?c ''thread_id'' = Some (JStr tid)" by (simp add: look)
    show "rec_get ?c ''graph_id'' = Some (JStr (a_graph_id assistant))" by (simp add: look)
    show "rec_get ?c ''assistant_id'' = Some (JStr aid)" by (simp add: look)
    show "rec_get ?c ''user_id'' \<noteq> None" by (simp add: look)
    show "layered A T C ''user_id'' = None \<longrightarrow>
         rec_get ?c ''user_id'' = Some (stored (map_option JStr (po_userId options)))"
      using uid by blast
    show "\<forall>k. k \<notin> synthesized_keys \<longrightarrow> rec_get ?c k = layered A T C k"
      by (simp add: look synthesized_keys_def)
  qed
qed

theorem put_configurable_shallow_witness:
  "keys_distinct (configurable (a_config demo_assistant)) \<and>
   keys_distinct (configurable_of (kw_config demo_kwargs)) \<and>
   (\<exists>newRun S' cfg c.
      Runs_put ''r1'' ''a1'' demo_kwargs (default_put_options\<lparr>po_threadId := Some ''t1''\<rparr>)
          ''u1'' 100 demo_store = (Inr [newRun], S') \<and>
      kw_config (r_kwargs newRun) = Some cfg \<and> configurable cfg = Some c \<and>
      rec_get c ''run_id'' = Some (JStr ''r1'') \<and>
      rec_get c ''thread_id'' = Some (JStr ''t1'') \<and>
      rec_get c ''user_id'' = Some JUndefined \<and>
      rec_get c ''model'' = Some (JObj [(''name'', JStr ''large'')]))"
  using put_configurable_shallow
    [where S = demo_store and aid = "''a1''" and assistant = demo_assistant
       and options = "default_put_options\<lparr>po_threadId := Some ''t1''\<rparr>"
       and tid = "''t1''" and fresh = "''u1''" and kwargs = demo_kwargs
       and runId = "''r1''" and now = 100
       and A = "configurable (a_config demo_assistant)"
       and T = "configurable_of (t_config demo_thread)"
       and C = "configurable_of (kw_config demo_kwargs)"]
  by (simp add: Runs_put_def put_run_def run_configurable_def Let_def
      demo_store_def empty_store_def default_put_options_def rec_values_def demo_thread_def
      demo_assistant_def demo_kwargs_def empty_config_def configurable_of_def prop_of_def
      object_assign_opt_def assign_config_def or_else_def keys_distinct_def inflight_of_def
      coalesce_def is_nullish_def stored_def)

section \<open>Cancellation\<close>

lemma abort_idem: "abort a (abort a c) = abort a c"
  by (simp add: abort_def)

lemma cancel_step_view_same:
  "view (fst (cancel_step threadId optAction now runId (W, f, p))) runId =
     cancel_view threadId (case optAction of None \<Rightarrow> ActInterrupt | Some a \<Rightarrow> a) now (view W runId)"
  by (auto simp: cancel_step_def cancel_view_def view_def Let_def getControl_def Runs_delete_def
      on_thread_def rec_get_rec_set_same rec_get_rec_delete_same
      split: option.splits prod.splits)

lemma cancel_step_view_other:
  "runId' \<noteq> runId \<Longrightarrow>
   view (fst (cancel_step threadId optAction now runId (W, f, p))) runId' = view W runId'"
  by (auto simp: cancel_step_def view_def Let_def getControl_def Runs_delete_def
      rec_get_rec_set_other rec_get_rec_delete_other
      split: option.splits prod.splits)

lemma map_option_abort_idem:
  "map_option (abort a) (map_option (abort a) c) = map_option (abort a) c"
  by (cases c) (simp_all add: abort_idem)

lemma cancel_view_idem:
  "cancel_view threadId action now (cancel_view threadId action now v) = cancel_view threadId action now v"
  by (cases v) (auto simp: cancel_view_def on_thread_def map_option_abort_idem split: option.splits)


lemma fold_cancel_view:
  "view (fst (fold (cancel_step threadId optAction now) runIds (W, f, p))) runId =
     (if runId \<in> set runIds
      then cancel_view threadId (case optAction of None \<Rightarrow> ActInterrupt | Some a \<Rightarrow> a) now (view W runId)
      else view W runId)"
proof (induction runIds arbitrary: W f p)
  case Nil
  then show ?case by simp
next
  case (Cons x xs)
  obtain W1 f1 p1 where st: "cancel_step threadId optAction now x (W, f, p) = (W1, f1, p1)"
    by (cases "cancel_step threadId optAction now x (W, f, p)") auto
  have W1: "W1 = fst (cancel_step threadId optAction now x (W, f, p))" using st by simp
  show ?case
  proof (cases "x = runId")
    case True
    have "view W1 runId =
            cancel_view threadId (case optAction of None \<Rightarrow> ActInterrupt | Some a \<Rightarrow> a) now (view W runId)"
      unfolding W1 True by (rule cancel_step_view_same)
    then show ?thesis using Cons.IH[of W1 f1 p1] st True by (simp add: cancel_view_idem)
  next
    case False
    then have "view W1 runId = view W runId"
      unfolding W1 by (intro cancel_step_view_other) simp
    then show ?thesis using Cons.IH[of W1 f1 p1] st False by auto
  qed
qed

text \<open>The counter and the promises.\<close>

lemma found_in_view: "found_in threadId W runId = (case fst (view W runId) of None \<Rightarrow> False | Some run \<Rightarrow> on_thread threadId run)"
  by (simp add: found_in_def view_def)

lemma cancel_view_found:
  "(case fst (cancel_view threadId action now v) of None \<Rightarrow> False | Some run \<Rightarrow> on_thread threadId run)
   \<Longrightarrow> (case fst v of None \<Rightarrow> False | Some run \<Rightarrow> on_thread threadId run)"
  by (cases v) (auto simp: cancel_view_def on_thread_def split: option.splits if_splits)

lemma cancel_step_found_mono:
  "found_in threadId (fst (cancel_step threadId optAction now x (W, f, p))) runId \<Longrightarrow>
   found_in threadId W runId"
proof (cases "x = runId")
  case True
  assume "found_in threadId (fst (cancel_step threadId optAction now x (W, f, p))) runId"
  then show ?thesis
    unfolding found_in_view True cancel_step_view_same by (rule cancel_view_found)
next
  case False
  assume "found_in threadId (fst (cancel_step threadId optAction now x (W, f, p))) runId"
  then show ?thesis
    unfolding found_in_view using cancel_step_view_other[of runId x threadId optAction now W f p] False
    by simp
qed

lemma cancel_step_count:
  "fst (snd (cancel_step threadId optAction now x (W, f, p))) =
     f + (if found_in threadId W x then 1 else 0)"
  by (auto simp: cancel_step_def found_in_def on_thread_def Let_def split: option.splits prod.splits)

lemma cancel_step_promises:
  "first_rejection p = None \<Longrightarrow>
   first_rejection (snd (snd (cancel_step threadId optAction now x (W, f, p)))) = None"
proof -
  have app: "first_rejection (p @ [Inr y]) = None" if "first_rejection p = None" for y :: string
    using that by (induction p rule: first_rejection.induct) auto
  assume "first_rejection p = None"
  then show ?thesis
    by (auto simp: cancel_step_def Let_def Runs_delete_def getControl_def app
        split: option.splits prod.splits)
qed

lemma fold_cancel_promises:
  "first_rejection p = None \<Longrightarrow>
   first_rejection (snd (snd (fold (cancel_step threadId optAction now) runIds (W, f, p)))) = None"
proof (induction runIds arbitrary: W f p)
  case Nil
  then show ?case by simp
next
  case (Cons x xs)
  obtain W1 f1 p1 where st: "cancel_step threadId optAction now x (W, f, p) = (W1, f1, p1)"
    by (cases "cancel_step threadId optAction now x (W, f, p)") auto
  have "first_rejection p1 = None"
    using cancel_step_promises[OF Cons.prems, of threadId optAction now x W f] st by simp
  from Cons.IH[OF this] show ?case using st by simp
qed

lemma fold_cancel_count_le:
  "fst (snd (fold (cancel_step threadId optAction now) runIds (W, f, p)))
     \<le> f + length (filter (found_in threadId W) runIds)"
proof (induction runIds arbitrary: W f p)
  case Nil
  then show ?case by simp
next
  case (Cons x xs)
  obtain W1 f1 p1 where st: "cancel_step threadId optAction now x (W, f, p) = (W1, f1, p1)"
    by (cases "cancel_step threadId optAction now x (W, f, p)") auto
  have f1: "f1 = f + (if found_in threadId W x then 1 else 0)"
    using cancel_step_count[of threadId optAction now x W f p] st by simp
  have mono: "found_in threadId W1 runId \<Longrightarrow> found_in threadId W runId" for runId
    using cancel_step_found_mono[of threadId optAction now x W f p runId] st by simp
  have "length (filter (found_in threadId W1) xs) \<le> length (filter (found_in threadId W) xs)"
  proof (induction xs)
    case Nil
    then show ?case by simp
  next
    case (Cons y ys)
    then show ?case using mono[of y] by auto
  qed
  with Cons.IH[of W1 f1 p1] f1 st show ?case by auto
qed

lemma fold_cancel_count_distinct:
  "distinct runIds \<Longrightarrow>
   fst (snd (fold (cancel_step threadId optAction now) runIds (W, f, p)))
     = f + length (filter (found_in threadId W) runIds)"
proof (induction runIds arbitrary: W f p)
  case Nil
  then show ?case by simp
next
  case (Cons x xs)
  obtain W1 f1 p1 where st: "cancel_step threadId optAction now x (W, f, p) = (W1, f1, p1)"
    by (cases "cancel_step threadId optAction now x (W, f, p)") auto
  have f1: "f1 = f + (if found_in threadId W x then 1 else 0)"
    using cancel_step_count[of threadId optAction now x W f p] st by simp
  have same: "found_in threadId W1 runId = found_in threadId W runId" if "runId \<in> set xs" for runId
  proof -
    from that Cons.prems have "runId \<noteq> x" by auto
    then show ?thesis
      unfolding found_in_view
      using cancel_step_view_other[of runId x threadId optAction now W f p] st by simp
  qed
  have "filter (found_in threadId W1) xs = filter (found_in threadId W) xs"
    by (rule filter_cong) (simp_all add: same)
  moreover from Cons.prems have "distinct xs" by simp
  ultimately show ?case using Cons.IH[of W1 f1 p1] f1 st by simp
qed


lemma aborted_abort: "aborted (abort a c)"
  by (simp add: abort_def)

lemma Runs_cancel_result:
  "Runs_cancel threadId runIds optAction now W =
     ((if fst (snd (fold (cancel_step threadId optAction now) runIds (W, 0, []))) < length runIds
       then Inl (HTTPException 404 ''Run not found'') else Inr ()),
      fst (fold (cancel_step threadId optAction now) runIds (W, 0, [])))"
proof -
  obtain W1 f1 p1 where st: "fold (cancel_step threadId optAction now) runIds (W, 0, []) = (W1, f1, p1)"
    by (cases "fold (cancel_step threadId optAction now) runIds (W, 0, [])") auto
  have p: "first_rejection p1 = None"
    using fold_cancel_promises[of "[]" threadId optAction now runIds W 0] st by simp
  have "f1 \<le> length (filter (found_in threadId W) runIds)"
    using fold_cancel_count_le[of threadId optAction now runIds W 0 "[]"] st by simp
  also have "\<dots> \<le> length runIds" by simp
  finally have "f1 \<le> length runIds" .
  then show ?thesis using st p by (auto simp: Runs_cancel_def)
qed

text \<open>
  Claim C3. After \<^verbatim>\<open>Runs.cancel(threadId, runIds, {action})\<close>, for every listed run that
  the store had on the given thread: its handle, if it had one, has been fired with the
  action; a pending run is now \<open>interrupted\<close> when it had a handle or the action is
  not \<open>rollback\<close>, and is gone from the store when it had no handle and the action is
  \<open>rollback\<close>; a run that was not pending is as it was. Runs and handles under every
  other id are as they were. The call fails with 404 exactly when the count of found
  runs the loop reaches is below the number of ids: it does so when a listed id is not
  found, and it succeeds when the ids are distinct and all found.
\<close>

theorem cancel_protocol:
  assumes c: "Runs_cancel threadId runIds optAction now W = (res, W')"
    and act: "action = (case optAction of None \<Rightarrow> ActInterrupt | Some a \<Rightarrow> a)"
  shows
    "(\<forall>runId run.
        runId \<in> set runIds \<and> rec_get (runs (w_store W)) runId = Some run \<and> on_thread threadId run \<longrightarrow>
        getControl (w_control W') runId = map_option (abort action) (getControl (w_control W) runId) \<and>
        (\<forall>handle. getControl (w_control W') runId = Some handle \<longrightarrow> aborted handle) \<and>
        rec_get (runs (w_store W')) runId =
          (if r_status run \<noteq> Pending then Some run
           else if getControl (w_control W) runId \<noteq> None \<or> action \<noteq> ActRollback
             then Some (run\<lparr>r_status := Interrupted, r_updated_at := now\<rparr>)
           else None)) \<and>
     (\<forall>runId.
        \<not> (runId \<in> set runIds \<and> found_in threadId W runId) \<longrightarrow>
        rec_get (runs (w_store W')) runId = rec_get (runs (w_store W)) runId \<and>
        getControl (w_control W') runId = getControl (w_control W) runId) \<and>
     res = (if fst (snd (fold (cancel_step threadId optAction now) runIds (W, 0, []))) < length runIds
            then Inl (HTTPException 404 ''Run not found'') else Inr ()) \<and>
     ((\<exists>runId \<in> set runIds. \<not> found_in threadId W runId) \<longrightarrow>
        res = Inl (HTTPException 404 ''Run not found'')) \<and>
     (distinct runIds \<and> (\<forall>runId \<in> set runIds. found_in threadId W runId) \<longrightarrow> res = Inr ())"
proof -
  let ?st = "fold (cancel_step threadId optAction now) runIds (W, 0, [])"
  from c Runs_cancel_result[of threadId runIds optAction now W]
  have res: "res = (if fst (snd ?st) < length runIds
                    then Inl (HTTPException 404 ''Run not found'') else Inr ())"
    and W': "W' = fst ?st" by simp_all
  have v: "view W' runId =
     (if runId \<in> set runIds then cancel_view threadId action now (view W runId) else view W runId)"
    for runId
    unfolding W' act by (rule fold_cancel_view)
  have 1: "getControl (w_control W') runId = map_option (abort action) (getControl (w_control W) runId) \<and>
        (\<forall>handle. getControl (w_control W') runId = Some handle \<longrightarrow> aborted handle) \<and>
        rec_get (runs (w_store W')) runId =
          (if r_status run \<noteq> Pending then Some run
           else if getControl (w_control W) runId \<noteq> None \<or> action \<noteq> ActRollback
             then Some (run\<lparr>r_status := Interrupted, r_updated_at := now\<rparr>)
           else None)"
    if "runId \<in> set runIds" "rec_get (runs (w_store W)) runId = Some run" "on_thread threadId run"
    for runId run
  proof -
    have "view W' runId = cancel_view threadId action now (Some run, rec_get (w_control W) runId)"
      using v[of runId] that by (simp add: view_def)
    then show ?thesis using that(3)
      by (auto simp: view_def cancel_view_def getControl_def aborted_abort split: if_splits)
  qed
  have 2: "rec_get (runs (w_store W')) runId = rec_get (runs (w_store W)) runId \<and>
        getControl (w_control W') runId = getControl (w_control W) runId"
    if "\<not> (runId \<in> set runIds \<and> found_in threadId W runId)" for runId
  proof (cases "runId \<in> set runIds")
    case False
    then show ?thesis using v[of runId] by (simp add: view_def getControl_def)
  next
    case True
    with that have "\<not> found_in threadId W runId" by simp
    then have "cancel_view threadId action now (view W runId) = view W runId"
      by (auto simp: found_in_def view_def cancel_view_def split: option.splits)
    then show ?thesis using v[of runId] True by (simp add: view_def getControl_def)
  qed
  have le: "fst (snd ?st) \<le> length (filter (found_in threadId W) runIds)"
    using fold_cancel_count_le[of threadId optAction now runIds W 0 "[]"] by simp
  have 3: "res = Inl (HTTPException 404 ''Run not found'')"
    if "\<exists>runId \<in> set runIds. \<not> found_in threadId W runId"
  proof -
    from that obtain runId where "runId \<in> set runIds" "\<not> found_in threadId W runId" by blast
    then have "length (filter (found_in threadId W) runIds) < length runIds"
      by (rule length_filter_less)
    with le show ?thesis using res by simp
  qed
  have 4: "res = Inr ()" if "distinct runIds \<and> (\<forall>runId \<in> set runIds. found_in threadId W runId)"
  proof -
    from that have "fst (snd ?st) = length (filter (found_in threadId W) runIds)"
      using fold_cancel_count_distinct[of runIds threadId optAction now W 0 "[]"] by simp
    also have "\<dots> = length runIds" using that by simp
    finally show ?thesis using res by simp
  qed
  show ?thesis using 1 2 res 3 4 by blast
qed


theorem cancel_protocol_witness:
  "fst (Runs_cancel (Some ''t1'') [''r1'', ''r2'', ''r3''] (Some ActRollback) 9 cancel_world) = Inr () \<and>
   runs (w_store (snd (Runs_cancel (Some ''t1'') [''r1'', ''r2'', ''r3''] (Some ActRollback) 9 cancel_world)))
     = [(''r2'', (cancel_run ''r2'' Pending)\<lparr>r_status := Interrupted, r_updated_at := 9\<rparr>),
        (''r3'', cancel_run ''r3'' Success)] \<and>
   w_control (snd (Runs_cancel (Some ''t1'') [''r1'', ''r2'', ''r3''] (Some ActRollback) 9 cancel_world))
     = [(''r2'', \<lparr>aborted = True, reason = Some ActRollback\<rparr>)]"
  using cancel_protocol
    [of "Some ''t1''" "[''r1'', ''r2'', ''r3'']" "Some ActRollback" 9 cancel_world
        "fst (Runs_cancel (Some ''t1'') [''r1'', ''r2'', ''r3''] (Some ActRollback) 9 cancel_world)"
        "snd (Runs_cancel (Some ''t1'') [''r1'', ''r2'', ''r3''] (Some ActRollback) 9 cancel_world)"
        ActRollback]
  by (simp add: Runs_cancel_def cancel_step_def Runs_delete_def cancel_world_def cancel_run_def
      empty_store_def getControl_def abort_def new_controller_def rec_delete_def Let_def
      demo_thread_def)

section \<open>Assistant versions\<close>

lemma fold_js_max2_fin: "is_fin acc \<Longrightarrow> is_fin (fold js_max2 xs acc)"
proof (induction xs arbitrary: acc)
  case Nil then show ?case by simp
next
  case (Cons x xs)
  have "is_fin (js_max2 x acc)" using Cons.prems
    by (cases x; cases acc) (auto simp: is_fin_def)
  then show ?case using Cons.IH by simp
qed

lemma math_max_fin: "xs \<noteq> [] \<Longrightarrow> \<forall>x \<in> set xs. is_fin x \<Longrightarrow> is_fin (math_max xs)"
proof (cases xs)
  case Nil then show "xs \<noteq> [] \<Longrightarrow> ?thesis" by simp
next
  case (Cons x ys)
  assume "\<forall>x \<in> set xs. is_fin x"
  then have "is_fin (js_max2 x NegInfinity)" using Cons by (cases x) (auto simp: is_fin_def)
  then show ?thesis unfolding math_max_def Cons by (simp add: fold_js_max2_fin)
qed

lemma inv_empty: "versions_inv empty_store"
  by (simp add: versions_inv_def empty_store_def)

lemma inv_put: "versions_inv S \<Longrightarrow> versions_inv (snd (Assistants_put i opts now S))"
  apply (cases "rec_get (assistants S) i")
   apply (auto simp: Assistants_put_def Let_def versions_inv_def has_version_def is_fin_def
      rec_get_rec_set_same dest!: subsetD[OF set_rec_set])
  done


lemma finite_fin_preimage: "finite {n. Fin n \<in> set xs}"
proof -
  have "{n. Fin n \<in> set xs} = Fin -` set xs" by auto
  moreover have "finite (Fin -` set xs)"
    by (rule finite_vimageI) (auto simp: inj_on_def)
  ultimately show ?thesis by simp
qed

lemma fold_js_max2_Max:
  "\<forall>x \<in> set xs. is_fin x \<Longrightarrow>
   fold js_max2 xs (Fin m) = Fin (Max (insert m {n. Fin n \<in> set xs}))"
proof (induction xs arbitrary: m)
  case Nil
  then show ?case by simp
next
  case (Cons x xs)
  from Cons.prems obtain k where x: "x = Fin k"
    by (cases x) (auto simp: is_fin_def)
  have fin: "finite {n. Fin n \<in> set xs}" by (rule finite_fin_preimage)
  have eq: "{n. Fin n \<in> set (x # xs)} = insert k {n. Fin n \<in> set xs}"
    using x by auto
  have "fold js_max2 (x # xs) (Fin m) = fold js_max2 xs (Fin (max k m))"
    using x by simp
  also have "\<dots> = Fin (Max (insert (max k m) {n. Fin n \<in> set xs}))"
    using Cons.IH Cons.prems by simp
  also have "Max (insert (max k m) {n. Fin n \<in> set xs}) = Max (insert m (insert k {n. Fin n \<in> set xs}))"
    using fin by (cases "{n. Fin n \<in> set xs} = {}") (auto simp: max.commute max.left_commute)
  finally show ?case using eq by simp
qed

lemma math_max_Max:
  assumes "xs \<noteq> []" and "\<forall>x \<in> set xs. is_fin x"
  shows "math_max xs = Fin (Max {n. Fin n \<in> set xs})"
proof -
  from assms obtain k ys where xs: "xs = Fin k # ys"
    by (cases xs; cases "hd xs") (auto simp: is_fin_def)
  have "math_max xs = fold js_max2 ys (Fin k)"
    by (simp add: math_max_def xs)
  also have "\<dots> = Fin (Max (insert k {n. Fin n \<in> set ys}))"
    using assms(2) xs by (intro fold_js_max2_Max) simp
  also have "insert k {n. Fin n \<in> set ys} = {n. Fin n \<in> set xs}"
    using xs by auto
  finally show ?thesis .
qed

lemma versions_of_set:
  "{n. Fin n \<in> set (map v_version (filter (\<lambda>v. v_assistant_id v = i) (assistant_versions S)))}
   = {n. has_version S i (Fin n)}"
  by (force simp: has_version_def image_iff)

lemma patch_new_version:
  assumes inv: "versions_inv S" and a: "rec_get (assistants S) i = Some a"
  shows "js_add1 (math_max (map v_version (filter (\<lambda>v. v_assistant_id v = i) (assistant_versions S))))
         = Fin (Max {n. has_version S i (Fin n)} + 1)"
proof -
  let ?vs = "map v_version (filter (\<lambda>v. v_assistant_id v = i) (assistant_versions S))"
  from a have "(i, a) \<in> set (assistants S)" by (rule rec_get_Some_mem)
  with inv have "has_version S i (a_version a)" by (auto simp: versions_inv_def)
  then have ne: "?vs \<noteq> []" by (auto simp: has_version_def filter_empty_conv)
  have fin: "\<forall>x \<in> set ?vs. is_fin x" using inv by (auto simp: versions_inv_def)
  have "math_max ?vs = Fin (Max {n. Fin n \<in> set ?vs})" using ne fin by (rule math_max_Max)
  then show ?thesis by (simp only: versions_of_set js_add1.simps)
qed

lemma has_version_append:
  "assistant_versions S' = assistant_versions S @ [e] \<Longrightarrow>
   has_version S' k n = (has_version S k n \<or> (v_assistant_id e = k \<and> v_version e = n))"
  by (auto simp: has_version_def)

lemma patch_shape:
  assumes "rec_get (assistants S) i = Some a"
  shows "\<exists>a' e S'. Assistants_patch i opts now S = (Inr a', S') \<and>
          assistants S' = rec_set i a' (assistants S) \<and>
          assistant_versions S' = assistant_versions S @ [e] \<and>
          a_assistant_id a' = a_assistant_id a \<and>
          a_version a' = js_add1 (math_max (map v_version
                           (filter (\<lambda>v. v_assistant_id v = i) (assistant_versions S)))) \<and>
          v_assistant_id e = i \<and> v_version e = a_version a'"
  using assms by (simp add: Assistants_patch_def Let_def split: option.splits)

lemma inv_patch:
  assumes inv: "versions_inv S"
  shows "versions_inv (snd (Assistants_patch i opts now S))"
proof (cases "rec_get (assistants S) i")
  case None
  then show ?thesis using inv by (simp add: Assistants_patch_def)
next
  case (Some a)
  from patch_shape[OF Some, of opts now] obtain a' e S' where
    p: "Assistants_patch i opts now S = (Inr a', S')"
    and as: "assistants S' = rec_set i a' (assistants S)"
    and vs: "assistant_versions S' = assistant_versions S @ [e]"
    and id: "a_assistant_id a' = a_assistant_id a"
    and ver: "a_version a' = js_add1 (math_max (map v_version
                 (filter (\<lambda>v. v_assistant_id v = i) (assistant_versions S))))"
    and e: "v_assistant_id e = i" "v_version e = a_version a'"
    by blast
  from Some have mem: "(i, a) \<in> set (assistants S)" by (rule rec_get_Some_mem)
  with inv have ida: "a_assistant_id a = i" by (auto simp: versions_inv_def)
  have fin: "is_fin (a_version a')"
    using ver patch_new_version[OF inv Some] by (simp add: is_fin_def)
  have 1: "\<forall>v \<in> set (assistant_versions S'). is_fin (v_version v)"
    using inv fin e vs by (auto simp: versions_inv_def)
  have 2: "a_assistant_id b = k \<and> has_version S' k (a_version b)"
    if "(k, b) \<in> set (assistants S')" for k b
  proof -
    from that have "(k, b) = (i, a') \<or> (k, b) \<in> set (assistants S)"
      using set_rec_set[of i a' "assistants S"] as by auto
    then show ?thesis
    proof
      assume "(k, b) = (i, a')"
      then show ?thesis using id ida e by (simp add: has_version_append[OF vs])
    next
      assume "(k, b) \<in> set (assistants S)"
      with inv show ?thesis by (auto simp: versions_inv_def has_version_append[OF vs])
    qed
  qed
  show ?thesis unfolding p snd_conv versions_inv_def using 1 2 by blast
qed

lemma inv_setLatest:
  assumes inv: "versions_inv S"
  shows "versions_inv (snd (Assistants_setLatest i v now S))"
proof (cases "rec_get (assistants S) i")
  case None
  then show ?thesis using inv by (simp add: Assistants_setLatest_def)
next
  case (Some a)
  from Some have mem: "(i, a) \<in> set (assistants S)" by (rule rec_get_Some_mem)
  show ?thesis
  proof (cases "find (\<lambda>x. v_assistant_id x = i \<and> v_version x = v) (assistant_versions S)")
    case None
    then show ?thesis using inv Some by (simp add: Assistants_setLatest_def)
  next
    case (Some ver)
    then have ver: "ver \<in> set (assistant_versions S)" "v_assistant_id ver = i"
      by (auto simp: find_Some_iff)
    then have hv: "has_version S i (v_version ver)" by (auto simp: has_version_def)
    show ?thesis
      using inv mem hv Some \<open>rec_get (assistants S) i = Some a\<close>
      apply (simp add: Assistants_setLatest_def Let_def versions_inv_def has_version_def)
      apply clarify
      apply (drule subsetD[OF set_rec_set])
      apply auto
      done
  qed
qed

lemma inv_delete:
  assumes inv: "versions_inv S"
  shows "versions_inv (snd (Assistants_delete i S))"
proof (cases "rec_get (assistants S) i")
  case None
  then show ?thesis using inv by (simp add: Assistants_delete_def)
next
  case (Some a)
  then show ?thesis using inv
    by (fastforce simp: Assistants_delete_def versions_inv_def has_version_def rec_delete_def)
qed

lemma inv_apply: "versions_inv S \<Longrightarrow> versions_inv (apply_assistant_op x S)"
  by (cases x) (simp_all add: inv_put inv_patch inv_setLatest inv_delete)

lemma inv_fold: "versions_inv S \<Longrightarrow> versions_inv (fold apply_assistant_op xs S)"
  by (induction xs arbitrary: S) (simp_all add: inv_apply)

lemma inv_run: "versions_inv (run_assistant_ops xs)"
  unfolding run_assistant_ops_def by (rule inv_fold[OF inv_empty])


text \<open>
  Claim C7. Start from the empty store and run any sequence of \<^verbatim>\<open>Assistants.put\<close>,
  \<^verbatim>\<open>patch\<close>, \<^verbatim>\<open>setLatest\<close> and \<^verbatim>\<open>delete\<close> calls (failed calls included). In the
  store reached, every assistant has a version record with its own id and its own
  version. And a \<^verbatim>\<open>patch\<close> of an assistant of that store succeeds, appends one version
  record whose version is one plus the largest version recorded for that assistant, and
  leaves the live assistant at that version.
\<close>

theorem assistant_version_invariant:
  "(\<forall>(k, a) \<in> set (assistants (run_assistant_ops ops)).
      \<exists>v \<in> set (assistant_versions (run_assistant_ops ops)).
        v_assistant_id v = a_assistant_id a \<and> v_version v = a_version a) \<and>
   (rec_get (assistants (run_assistant_ops ops)) i = Some a \<longrightarrow>
      (\<exists>a' e S'.
         Assistants_patch i opts now (run_assistant_ops ops) = (Inr a', S') \<and>
         assistant_versions S' = assistant_versions (run_assistant_ops ops) @ [e] \<and>
         v_assistant_id e = i \<and>
         v_version e = Fin (Max {n. \<exists>v \<in> set (assistant_versions (run_assistant_ops ops)).
                                    v_assistant_id v = i \<and> v_version v = Fin n} + 1) \<and>
         a_version a' = v_version e \<and>
         rec_get (assistants S') i = Some a'))"
proof (intro conjI impI)
  let ?S = "run_assistant_ops ops"
  have inv: "versions_inv ?S" by (rule inv_run)
  show "\<forall>(k, a) \<in> set (assistants ?S).
          \<exists>v \<in> set (assistant_versions ?S).
            v_assistant_id v = a_assistant_id a \<and> v_version v = a_version a"
    using inv by (fastforce simp: versions_inv_def has_version_def)
  assume a: "rec_get (assistants ?S) i = Some a"
  from patch_shape[OF a, of opts now] obtain a' e S' where
    p: "Assistants_patch i opts now ?S = (Inr a', S')"
    and as: "assistants S' = rec_set i a' (assistants ?S)"
    and vs: "assistant_versions S' = assistant_versions ?S @ [e]"
    and ver: "a_version a' = js_add1 (math_max (map v_version
                 (filter (\<lambda>v. v_assistant_id v = i) (assistant_versions ?S))))"
    and e: "v_assistant_id e = i" "v_version e = a_version a'"
    by blast
  have "a_version a' = Fin (Max {n. has_version ?S i (Fin n)} + 1)"
    using ver patch_new_version[OF inv a] by simp
  then have v: "v_version e = Fin (Max {n. \<exists>v \<in> set (assistant_versions ?S).
                                    v_assistant_id v = i \<and> v_version v = Fin n} + 1)"
    using e by (simp add: has_version_def)
  have g: "rec_get (assistants S') i = Some a'"
    using as by (simp add: rec_get_rec_set_same)
  show "\<exists>a' e S'.
         Assistants_patch i opts now ?S = (Inr a', S') \<and>
         assistant_versions S' = assistant_versions ?S @ [e] \<and>
         v_assistant_id e = i \<and>
         v_version e = Fin (Max {n. \<exists>v \<in> set (assistant_versions ?S).
                                    v_assistant_id v = i \<and> v_version v = Fin n} + 1) \<and>
         a_version a' = v_version e \<and>
         rec_get (assistants S') i = Some a'"
    using p vs e v g by auto
qed

theorem assistant_version_invariant_witness:
  "(\<exists>a. rec_get (assistants (run_assistant_ops
        [OpPut ''a'' demo_put_options 1, OpPatch ''a'' demo_patch_options 2,
         OpSetLatest ''a'' (Fin 1) 3])) ''a'' = Some a \<and> a_version a = Fin 1) \<and>
   (\<exists>a' S'.
      Assistants_patch ''a'' demo_patch_options 4 (run_assistant_ops
        [OpPut ''a'' demo_put_options 1, OpPatch ''a'' demo_patch_options 2,
         OpSetLatest ''a'' (Fin 1) 3]) = (Inr a', S') \<and>
      a_version a' = Fin 3 \<and>
      map v_version (assistant_versions S') = [Fin 1, Fin 2, Fin 3] \<and>
      rec_get (assistants S') ''a'' = Some a')"
  using assistant_version_invariant
    [of "[OpPut ''a'' demo_put_options 1, OpPatch ''a'' demo_patch_options 2,
          OpSetLatest ''a'' (Fin 1) 3]" "''a''" _ demo_patch_options 4]
  by (simp add: run_assistant_ops_def Assistants_put_def Assistants_patch_def
      Assistants_setLatest_def empty_store_def demo_put_options_def demo_patch_options_def
      math_max_def Let_def name_or_def empty_config_def)

section \<open>Idempotent put\<close>

text \<open>
  Claim C8. With \<^verbatim>\<open>if_exists = do_nothing\<close>, a first \<^verbatim>\<open>put\<close> with some id succeeds, and
  a second \<^verbatim>\<open>put\<close> with the same id (whatever its other options, whatever the time)
  returns the record of the first call and leaves the store as the first call left it.
  This holds for \<^verbatim>\<open>Threads.put\<close> and for \<^verbatim>\<open>Assistants.put\<close>.
\<close>

theorem put_do_nothing_idempotent:
  "tp_if_exists o1 = DoNothing \<and> tp_if_exists o2 = DoNothing \<and>
   ap_if_exists p1 = DoNothing \<and> ap_if_exists p2 = DoNothing \<longrightarrow>
   (\<exists>t S1. Threads_put tid (Some o1) n1 S = (Inr t, S1) \<and>
            Threads_put tid (Some o2) n2 S1 = (Inr t, S1)) \<and>
   (\<exists>a S1. Assistants_put aid p1 n1 S = (Inr a, S1) \<and>
            Assistants_put aid p2 n2 S1 = (Inr a, S1))"
proof (intro impI conjI)
  assume h: "tp_if_exists o1 = DoNothing \<and> tp_if_exists o2 = DoNothing \<and>
             ap_if_exists p1 = DoNothing \<and> ap_if_exists p2 = DoNothing"
  show "\<exists>t S1. Threads_put tid (Some o1) n1 S = (Inr t, S1) \<and>
               Threads_put tid (Some o2) n2 S1 = (Inr t, S1)"
  proof (cases "rec_get (threads S) tid")
    case None
    with h show ?thesis
      by (simp add: Threads_put_def Let_def rec_get_rec_set_same)
  next
    case (Some t)
    with h show ?thesis
      by (simp add: Threads_put_def)
  qed
  show "\<exists>a S1. Assistants_put aid p1 n1 S = (Inr a, S1) \<and>
               Assistants_put aid p2 n2 S1 = (Inr a, S1)"
  proof (cases "rec_get (assistants S) aid")
    case None
    with h show ?thesis
      by (simp add: Assistants_put_def Let_def rec_get_rec_set_same)
  next
    case (Some a)
    with h show ?thesis
      by (simp add: Assistants_put_def)
  qed
qed

theorem put_do_nothing_idempotent_witness:
  "(\<exists>t S1. Threads_put ''t1'' (Some \<lparr>tp_metadata = None, tp_if_exists = DoNothing\<rparr>) 5 empty_store
               = (Inr t, S1) \<and>
            Threads_put ''t1'' (Some \<lparr>tp_metadata = Some [(''k'', JNum 1)], tp_if_exists = DoNothing\<rparr>) 9 S1
               = (Inr t, S1)) \<and>
   (\<exists>a S1. Assistants_put ''a1'' \<lparr>ap_config = None, ap_graph_id = ''g'', ap_metadata = None,
                                  ap_if_exists = DoNothing, ap_name = None\<rparr> 5 empty_store
               = (Inr a, S1) \<and>
            Assistants_put ''a1'' \<lparr>ap_config = None, ap_graph_id = ''h'', ap_metadata = None,
                                  ap_if_exists = DoNothing, ap_name = Some ''n''\<rparr> 9 S1
               = (Inr a, S1))"
  using put_do_nothing_idempotent
    [of "\<lparr>tp_metadata = None, tp_if_exists = DoNothing\<rparr>"
        "\<lparr>tp_metadata = Some [(''k'', JNum 1)], tp_if_exists = DoNothing\<rparr>"
        "\<lparr>ap_config = None, ap_graph_id = ''g'', ap_metadata = None,
          ap_if_exists = DoNothing, ap_name = None\<rparr>"
        "\<lparr>ap_config = None, ap_graph_id = ''h'', ap_metadata = None,
          ap_if_exists = DoNothing, ap_name = Some ''n''\<rparr>"
        "''t1''" 5 empty_store 9 "''a1''"]
  by simp

section \<open>Searching runs\<close>

text \<open>
  With a window of offset \<open>off\<close> and limit \<open>lmt\<close>, both non-negative, \<^verbatim>\<open>Runs.search\<close>
  returns the matches from position \<open>off\<close> up to position \<open>lmt\<close>: at most
  \<open>lmt - off\<close> runs, since \<^verbatim>\<open>slice\<close> is given \<open>lmt\<close> as its end.
\<close>

lemma search_window:
  "0 \<le> off \<Longrightarrow> 0 \<le> lmt \<Longrightarrow>
   Runs_search threadId \<lparr>so_limit = Some lmt, so_offset = Some off, so_status = st, so_metadata = m\<rparr> S =
     take (nat (lmt - off)) (drop (nat off)
       (search_matches threadId \<lparr>so_limit = Some lmt, so_offset = Some off, so_status = st, so_metadata = m\<rparr> S))"
  by (auto simp: Runs_search_def js_slice_def Let_def min_def)

text \<open>
  Claim C9 asks for the matches after the first \<open>offset\<close>, at most \<open>limit\<close> of them.
  On the sample store all three runs of thread \<open>t1\<close> match; with offset 1 and limit 1
  the claim gives run \<open>r2\<close>, and \<^verbatim>\<open>Runs.search\<close> returns nothing.
\<close>

theorem search_window_slip:
  "map r_run_id (search_matches ''t1''
      \<lparr>so_limit = Some 1, so_offset = Some 1, so_status = None, so_metadata = Some [(''k'', JNum 1)]\<rparr>
      search_store) = [''r1'', ''r2'', ''r3''] \<and>
   Runs_search ''t1''
      \<lparr>so_limit = Some 1, so_offset = Some 1, so_status = None, so_metadata = Some [(''k'', JNum 1)]\<rparr>
      search_store = [] \<and>
   map r_run_id (search_spec ''t1''
      \<lparr>so_limit = Some 1, so_offset = Some 1, so_status = None, so_metadata = Some [(''k'', JNum 1)]\<rparr>
      search_store) = [''r2'']"
  by (simp add: Runs_search_def search_spec_def search_matches_def js_slice_def search_store_def
      search_run_def empty_store_def rec_values_def is_nullish_def Let_def)

section \<open>Runs.put on a missing thread\<close>

text \<open>
  Claim C10, as stated, fails: a call that names a missing thread under the default
  \<^verbatim>\<open>ifNotExists\<close> raises 404 when its assistant does not exist either.
\<close>

theorem put_missing_thread_counterexample:
  "Runs_put ''r1'' ''a9'' demo_kwargs (default_put_options\<lparr>po_threadId := Some ''t9''\<rparr>) ''u1'' 100 demo_store
     = (Inl (HTTPException 404 (no_assistant_message ''a9'')), demo_store) \<and>
   ''t9'' \<notin> t_thread_id ` set (rec_values (threads demo_store)) \<and>
   po_ifNotExists (default_put_options\<lparr>po_threadId := Some ''t9''\<rparr>) = None"
  by (simp add: Runs_put_def demo_store_def empty_store_def default_put_options_def
      demo_assistant_def rec_values_def demo_thread_def)

text \<open>
  Claim C10, amended. When the assistant exists, \<^verbatim>\<open>options.threadId\<close> names a thread
  that does not exist and \<^verbatim>\<open>ifNotExists\<close> is \<open>reject\<close> (the default), \<^verbatim>\<open>Runs.put\<close>
  returns the empty list without raising and leaves the store unchanged.
\<close>

theorem put_missing_thread_rejected:
  assumes "rec_get (assistants S) assistantId = Some assistant"
    and "po_threadId options = Some tid"
    and "tid \<notin> t_thread_id ` set (rec_values (threads S))"
    and "po_ifNotExists options = None \<or> po_ifNotExists options = Some RejectMissing"
  shows "Runs_put runId assistantId kwargs options fresh now S = (Inr [], S)"
  using assms find_None_thread[of tid "threads S"]
  by (auto simp: Runs_put_def Let_def)

theorem put_missing_thread_rejected_witness:
  "Runs_put ''r1'' ''a1'' demo_kwargs (default_put_options\<lparr>po_threadId := Some ''t9''\<rparr>) ''u1'' 100 demo_store
     = (Inr [], demo_store)"
  using put_missing_thread_rejected
    [of demo_store "''a1''" demo_assistant "default_put_options\<lparr>po_threadId := Some ''t9''\<rparr>" "''t9''"
        "''r1''" demo_kwargs "''u1''" 100]
  by (simp add: demo_store_def empty_store_def default_put_options_def rec_values_def demo_thread_def)


section \<open>The message queue\<close>

lemma settles_refl: "list_all2 settles cs cs"
  by (simp add: list_all2_refl settles_def)

lemma fails_refl: "list_all2 fails cs cs"
  by (simp add: list_all2_refl fails_def)

lemma settles_trans: "settles a b \<Longrightarrow> settles b c \<Longrightarrow> settles a c"
  by (auto simp: settles_def)

lemma fails_trans: "fails a b \<Longrightarrow> fails b c \<Longrightarrow> fails a c"
  by (auto simp: fails_def)

lemma fails_settles: "fails a b \<Longrightarrow> settles a b"
  by (auto simp: fails_def settles_def)

lemma settles_update:
  "w < length cs \<Longrightarrow> settles (cs ! w) c' \<Longrightarrow> list_all2 settles cs (cs[w := c'])"
  by (simp add: list_all2_conv_all_nth nth_list_update settles_def)

lemma fails_update:
  "w < length cs \<Longrightarrow> fails (cs ! w) c' \<Longrightarrow> list_all2 fails cs (cs[w := c'])"
  by (simp add: list_all2_conv_all_nth nth_list_update fails_def)

lemma listener_callback_settles:
  "list_all2 settles (calls q) (calls (listener_callback w q)) \<and>
   buffer (listener_callback w q) = buffer q"
  by (auto simp: listener_callback_def resolve_def settles_refl settles_def intro!: settles_update)

lemma timer_callback_fails:
  "list_all2 fails (calls q) (calls (timer_callback w q)) \<and>
   buffer (timer_callback w q) = buffer q"
  by (auto simp: timer_callback_def reject_def fails_refl fails_def intro!: fails_update)

lemma abort_callback_fails:
  "list_all2 fails (calls q) (calls (abort_callback w q)) \<and>
   buffer (abort_callback w q) = buffer q"
  by (auto simp: abort_callback_def reject_def fails_refl fails_def intro!: fails_update)

lemma fold_listener_settles:
  "list_all2 settles (calls q) (calls (fold listener_callback ws q)) \<and>
   buffer (fold listener_callback ws q) = buffer q"
proof (induction ws arbitrary: q)
  case Nil
  then show ?case by (simp add: settles_refl)
next
  case (Cons w ws)
  have a: "list_all2 settles (calls q) (calls (listener_callback w q))"
    and b: "buffer (listener_callback w q) = buffer q"
    using listener_callback_settles[of q w] by simp_all
  from Cons.IH[of "listener_callback w q"]
  have c: "list_all2 settles (calls (listener_callback w q))
             (calls (fold listener_callback ws (listener_callback w q)))"
    and d: "buffer (fold listener_callback ws (listener_callback w q)) = buffer (listener_callback w q)"
    by simp_all
  have "list_all2 settles (calls q) (calls (fold listener_callback ws (listener_callback w q)))"
    using a c by (rule list_all2_trans[rotated]) (rule settles_trans)
  then show ?case using b d by simp
qed

lemma fold_abort_fails:
  "list_all2 fails (calls q) (calls (fold abort_callback ws q)) \<and>
   buffer (fold abort_callback ws q) = buffer q"
proof (induction ws arbitrary: q)
  case Nil
  then show ?case by (simp add: fails_refl)
next
  case (Cons w ws)
  have a: "list_all2 fails (calls q) (calls (abort_callback w q))"
    and b: "buffer (abort_callback w q) = buffer q"
    using abort_callback_fails[of q w] by simp_all
  from Cons.IH[of "abort_callback w q"]
  have c: "list_all2 fails (calls (abort_callback w q))
             (calls (fold abort_callback ws (abort_callback w q)))"
    and d: "buffer (fold abort_callback ws (abort_callback w q)) = buffer (abort_callback w q)"
    by simp_all
  have "list_all2 fails (calls q) (calls (fold abort_callback ws (abort_callback w q)))"
    using a c by (rule list_all2_trans[rotated]) (rule fails_trans)
  then show ?case using b d by simp
qed

text \<open>What settling keeps.\<close>

lemma settles_returned: "list_all2 settles cs cs' \<Longrightarrow> returned cs' = returned cs"
  by (induction rule: list_all2_induct) (auto simp: settles_def split: CallState.splits option.splits)

lemma settles_not_outstanding:
  "list_all2 settles cs cs' \<Longrightarrow> list_all (\<lambda>c. \<not> outstanding c) cs \<Longrightarrow>
   list_all (\<lambda>c. \<not> outstanding c) cs'"
  by (induction rule: list_all2_induct) (auto simp: settles_def outstanding_def)

lemma settles_butlast: "list_all2 settles cs cs' \<Longrightarrow> list_all2 settles (butlast cs) (butlast cs')"
  by (induction rule: list_all2_induct) (auto simp: list_all2_Nil list_all2_Nil2)

lemma settles_no_undefined:
  "list_all2 settles cs cs' \<Longrightarrow> list_all (\<lambda>c. c_state c \<noteq> Returned None) cs \<Longrightarrow>
   list_all (\<lambda>c. c_state c \<noteq> Returned None) cs'"
  by (induction rule: list_all2_induct) (auto simp: settles_def)

lemma fails_woken:
  "list_all2 fails cs cs' \<Longrightarrow> list_ex (\<lambda>c. c_state c = Woken) cs' \<Longrightarrow>
   list_ex (\<lambda>c. c_state c = Woken) cs"
  by (induction rule: list_all2_induct) (auto simp: fails_def)


lemma returned_append: "returned (cs @ ds) = returned cs @ returned ds"
  by (induction cs) (auto split: CallState.splits option.splits)

lemma woken_outstanding:
  "list_ex (\<lambda>c. c_state c = Woken) cs \<Longrightarrow> list_ex outstanding cs"
  by (auto simp: list_ex_iff outstanding_def)

lemma not_ex_outstanding: "\<not> list_ex outstanding cs \<Longrightarrow> list_all (\<lambda>c. \<not> outstanding c) cs"
  by (auto simp: list_ex_iff list_all_iff)

lemma inv_settling:
  assumes inv: "queue_inv q"
    and st: "list_all2 settles (calls q) (calls q')"
    and buf: "buffer q' = buffer q @ ms"
    and wake: "ms \<noteq> [] \<or> list_all2 fails (calls q) (calls q')"
  shows "queue_inv q' \<and> returned (calls q') @ buffer q' = returned (calls q) @ buffer q @ ms"
proof -
  have 1: "list_all (\<lambda>c. \<not> outstanding c) (butlast (calls q'))"
    using settles_not_outstanding[OF settles_butlast[OF st]] inv by (simp add: queue_inv_def)
  have 2: "list_ex (\<lambda>c. c_state c = Woken) (calls q') \<longrightarrow> buffer q' \<noteq> []"
  proof
    assume w: "list_ex (\<lambda>c. c_state c = Woken) (calls q')"
    from wake show "buffer q' \<noteq> []"
    proof
      assume "ms \<noteq> []"
      then show ?thesis using buf by simp
    next
      assume "list_all2 fails (calls q) (calls q')"
      from fails_woken[OF this w] inv have "buffer q \<noteq> []" by (simp add: queue_inv_def)
      then show ?thesis using buf by simp
    qed
  qed
  have 3: "list_all (\<lambda>c. c_state c \<noteq> Returned None) (calls q')"
    using settles_no_undefined[OF st] inv by (simp add: queue_inv_def)
  show ?thesis using 1 2 3 settles_returned[OF st] buf by (simp add: queue_inv_def)
qed

lemma inv_push:
  assumes "queue_inv q"
  shows "queue_inv (push item q) \<and>
         returned (calls (push item q)) @ buffer (push item q) = returned (calls q) @ buffer q @ [item]"
proof -
  let ?q0 = "q\<lparr>buffer := buffer q @ [item]\<rparr>"
  have "list_all2 settles (calls ?q0) (calls (push item q))" "buffer (push item q) = buffer ?q0"
    using fold_listener_settles[of ?q0 "listeners q"] by (simp_all add: push_def)
  then have "list_all2 settles (calls q) (calls (push item q))" "buffer (push item q) = buffer q @ [item]"
    by simp_all
  from inv_settling[OF assms this] show ?thesis by simp
qed

lemma inv_timer:
  assumes "queue_inv q"
  shows "queue_inv (step (TimerFires w now) q) \<and>
         returned (calls (step (TimerFires w now) q)) @ buffer (step (TimerFires w now) q)
           = returned (calls q) @ buffer q"
proof -
  have f: "list_all2 fails (calls q) (calls (step (TimerFires w now) q))"
    and b: "buffer (step (TimerFires w now) q) = buffer q @ []"
    using timer_callback_fails[of q w] by (auto simp: fails_refl)
  have s: "list_all2 settles (calls q) (calls (step (TimerFires w now) q))"
    using f by (rule list_all2_mono) (rule fails_settles)
  from inv_settling[OF assms s b] f show ?thesis by simp
qed

lemma inv_signal:
  assumes "queue_inv q"
  shows "queue_inv (step (SignalFires sid) q) \<and>
         returned (calls (step (SignalFires sid) q)) @ buffer (step (SignalFires sid) q)
           = returned (calls q) @ buffer q"
proof -
  let ?q0 = "q\<lparr>fired := fired q @ [sid]\<rparr>"
  let ?ws = "filter (\<lambda>w. c_signal (calls q ! w) = Some sid) [0..<length (calls q)]"
  have "list_all2 fails (calls ?q0) (calls (fold abort_callback ?ws ?q0))"
    "buffer (fold abort_callback ?ws ?q0) = buffer ?q0"
    using fold_abort_fails[of ?q0 ?ws] by simp_all
  then have f: "list_all2 fails (calls q) (calls (step (SignalFires sid) q))"
    and b: "buffer (step (SignalFires sid) q) = buffer q @ []"
    by (auto simp: fails_refl)
  have s: "list_all2 settles (calls q) (calls (step (SignalFires sid) q))"
    using f by (rule list_all2_mono) (rule fails_settles)
  from inv_settling[OF assms s b] f show ?thesis by simp
qed

lemma inv_get:
  assumes inv: "queue_inv q" and free: "\<not> list_ex outstanding (calls q)"
  shows "queue_inv (get timeout signal now q) \<and>
         returned (calls (get timeout signal now q)) @ buffer (get timeout signal now q)
           = returned (calls q) @ buffer q"
proof -
  have no: "list_all (\<lambda>c. \<not> outstanding c) (calls q)" using free by (rule not_ex_outstanding)
  have nw: "\<not> list_ex (\<lambda>c. c_state c = Woken) (calls q)" using free woken_outstanding by blast
  have un: "list_all (\<lambda>c. c_state c \<noteq> Returned None) (calls q)" using inv by (simp add: queue_inv_def)
  show ?thesis
  proof (cases "buffer q")
    case Nil
    then show ?thesis using no nw un
      by (simp add: get_def queue_inv_def returned_append)
  next
    case (Cons item rest)
    then show ?thesis using no nw un
      by (simp add: get_def queue_inv_def returned_append)
  qed
qed

lemma inv_then:
  assumes inv: "queue_inv q"
  shows "queue_inv (then_callback w q) \<and>
         returned (calls (then_callback w q)) @ buffer (then_callback w q)
           = returned (calls q) @ buffer q"
proof (cases "w < length (calls q) \<and> c_state (calls q ! w) = Woken")
  case False
  then show ?thesis using inv by (auto simp: then_callback_def)
next
  case True
  then have w: "w < length (calls q)" and wk: "c_state (calls q ! w) = Woken" by simp_all
  from w have ne: "calls q \<noteq> []" by auto
  have bl: "list_all (\<lambda>c. \<not> outstanding c) (butlast (calls q))" using inv by (simp add: queue_inv_def)
  have last: "w = length (calls q) - 1"
  proof (rule ccontr)
    assume "w \<noteq> length (calls q) - 1"
    with w have "w < length (butlast (calls q))" by simp
    then have "butlast (calls q) ! w \<in> set (butlast (calls q))" by (rule nth_mem)
    moreover have "butlast (calls q) ! w = calls q ! w"
      using \<open>w < length (butlast (calls q))\<close> by (simp add: nth_butlast)
    ultimately have "\<not> outstanding (calls q ! w)" using bl by (simp add: list_all_iff)
    then show False using wk by (simp add: outstanding_def)
  qed
  have "list_ex (\<lambda>c. c_state c = Woken) (calls q)"
    using w wk by (auto simp: list_ex_iff intro: bexI[of _ "calls q ! w"])
  with inv have "buffer q \<noteq> []" by (simp add: queue_inv_def)
  then obtain item rest where buf: "buffer q = item # rest" by (cases "buffer q") auto
  let ?c = "(calls q ! w)\<lparr>c_state := Returned (Some item)\<rparr>"
  have "last (calls q) = calls q ! w" using ne last by (simp add: last_conv_nth)
  then have split: "calls q = butlast (calls q) @ [calls q ! w]"
    using ne append_butlast_last_id[of "calls q"] by simp
  have upd: "(calls q)[w := ?c] = butlast (calls q) @ [?c]"
  proof -
    have "(butlast (calls q) @ [calls q ! w])[w := ?c] = butlast (calls q) @ [?c]"
      using last by (simp add: list_update_append)
    then show ?thesis using split by simp
  qed
  have t: "then_callback w q = q\<lparr>buffer := rest, calls := butlast (calls q) @ [?c]\<rparr>"
    using True buf upd by (simp add: then_callback_def)
  have nwb: "\<not> list_ex (\<lambda>c. c_state c = Woken) (butlast (calls q))"
    using bl by (auto simp: list_ex_iff list_all_iff outstanding_def)
  have un: "list_all (\<lambda>c. c_state c \<noteq> Returned None) (butlast (calls q))"
    using inv by (auto simp: queue_inv_def list_all_iff dest: in_set_butlastD)
  have r: "returned (calls q) = returned (butlast (calls q))"
    by (subst split) (simp add: returned_append wk)
  show ?thesis
    unfolding t using bl nwb un r buf
    by (simp add: queue_inv_def returned_append)
qed

lemma inv_empty_queue: "queue_inv empty_queue"
  by (simp add: queue_inv_def empty_queue_def)

lemma single_subscriber_fifo:
  "queue_inv q \<Longrightarrow> single_subscriber events q \<Longrightarrow>
   queue_inv (run_events events q) \<and>
   returned (calls (run_events events q)) @ buffer (run_events events q)
     = returned (calls q) @ buffer q @ pushed events"
proof (induction events arbitrary: q)
  case Nil
  then show ?case by (simp add: run_events_def)
next
  case (Cons e events)
  have step: "queue_inv (step e q) \<and>
      returned (calls (step e q)) @ buffer (step e q) = returned (calls q) @ buffer q @ pushed [e]"
  proof (cases e)
    case (Push item)
    then show ?thesis using inv_push[OF Cons.prems(1), of item] by simp
  next
    case (Get timeout signal now)
    then show ?thesis using inv_get[OF Cons.prems(1), of timeout signal now] Cons.prems(2) by simp
  next
    case (TimerFires w now)
    then show ?thesis using inv_timer[OF Cons.prems(1), of w now] by simp
  next
    case (SignalFires sid)
    then show ?thesis using inv_signal[OF Cons.prems(1), of sid] by simp
  next
    case (ThenRuns w)
    then show ?thesis using inv_then[OF Cons.prems(1), of w] by simp
  qed
  have rest: "single_subscriber events (step e q)"
    using Cons.prems(2) by (cases e) simp_all
  have p: "pushed (e # events) = pushed [e] @ pushed events" by (cases e) simp_all
  from Cons.IH[OF conjunct1[OF step] rest] step p
  show ?case by (simp add: run_events_def)
qed

lemma abort_callback_effect:
  "length (calls (abort_callback w' q)) = length (calls q) \<and>
   fired (abort_callback w' q) = fired q \<and>
   set (listeners (abort_callback w' q)) = (if w' < length (calls q) then set (listeners q) - {w'} else set (listeners q)) \<and>
   (w < length (calls q) \<longrightarrow>
      calls (abort_callback w' q) ! w =
        (if w' = w then reject AbortError ((calls q ! w)\<lparr>c_timer := None\<rparr>) else calls q ! w))"
  by (auto simp: abort_callback_def)

lemma fold_abort_effect:
  "w < length (calls q) \<Longrightarrow>
   length (calls (fold abort_callback ws q)) = length (calls q) \<and>
   fired (fold abort_callback ws q) = fired q \<and>
   (w \<in> set (listeners (fold abort_callback ws q)) \<longleftrightarrow> w \<in> set (listeners q) \<and> w \<notin> set ws) \<and>
   (w \<notin> set ws \<longrightarrow> calls (fold abort_callback ws q) ! w = calls q ! w) \<and>
   (w \<in> set ws \<and> c_state (calls q ! w) = Waiting \<longrightarrow>
      c_state (calls (fold abort_callback ws q) ! w) = Failed AbortError \<and>
      c_timer (calls (fold abort_callback ws q) ! w) = None)"
proof (induction ws arbitrary: q)
  case Nil
  then show ?case by simp
next
  case (Cons w' ws)
  let ?q = "abort_callback w' q"
  note e = abort_callback_effect[of w' q w]
  have len: "w < length (calls ?q)" using Cons.prems e by simp
  note ih = Cons.IH[OF len]
  show ?case
  proof (cases "w' = w")
    case True
    have st: "c_state (calls ?q ! w) = (if c_state (calls q ! w) = Waiting then Failed AbortError else c_state (calls q ! w))"
      and tm: "c_timer (calls ?q ! w) = None"
      using e Cons.prems True by (auto simp: reject_def)
    have nl: "w \<notin> set (listeners ?q)" using e Cons.prems True by simp
    have keep: "c_state (calls (fold abort_callback ws ?q) ! w) = Failed AbortError \<and>
                c_timer (calls (fold abort_callback ws ?q) ! w) = None"
      if "c_state (calls q ! w) = Waiting"
    proof (cases "w \<in> set ws")
      case False
      then show ?thesis using ih st tm that by simp
    next
      case True
      have f: "c_state (calls ?q ! w) = Failed AbortError" using st that by simp
      have "\<And>q'. w < length (calls q') \<Longrightarrow> c_state (calls q' ! w) = Failed AbortError \<Longrightarrow>
              c_timer (calls q' ! w) = None \<Longrightarrow>
              c_state (calls (fold abort_callback ws q') ! w) = Failed AbortError \<and>
              c_timer (calls (fold abort_callback ws q') ! w) = None"
      proof (induction ws)
        case Nil
        then show ?case by simp
      next
        case (Cons v vs)
        have "w < length (calls (abort_callback v q'))"
          "c_state (calls (abort_callback v q') ! w) = Failed AbortError"
          "c_timer (calls (abort_callback v q') ! w) = None"
          using abort_callback_effect[of v q' w] Cons.prems by (auto simp: reject_def)
        from Cons.IH[OF this] show ?case by simp
      qed
      from this[OF len f tm] show ?thesis .
    qed
    show ?thesis using ih e True nl keep Cons.prems by auto
  next
    case False
    have same: "calls ?q ! w = calls q ! w" using e Cons.prems False by simp
    have l: "w \<in> set (listeners ?q) \<longleftrightarrow> w \<in> set (listeners q)" using e False by auto
    show ?thesis using ih e False same l by auto
  qed
qed

lemma timer_callback_effect:
  "length (calls (timer_callback w' q)) = length (calls q) \<and>
   fired (timer_callback w' q) = fired q \<and>
   set (listeners (timer_callback w' q)) = (if w' < length (calls q) then set (listeners q) - {w'} else set (listeners q)) \<and>
   (w < length (calls q) \<longrightarrow>
      calls (timer_callback w' q) ! w =
        (if w' = w then reject TimeoutError ((calls q ! w)\<lparr>c_timer := None\<rparr>) else calls q ! w))"
  by (auto simp: timer_callback_def)

lemma waits_step:
  assumes w: "waits w due signal q" and e: "leaves_waiting w signal e"
  shows "waits w due signal (step e q)"
proof (cases e)
  case (Push item)
  then show ?thesis using e by simp
next
  case (Get timeout signal' now)
  then show ?thesis using w
    by (cases "buffer q") (auto simp: waits_def get_def nth_append split: option.splits)
next
  case (TimerFires w' now)
  with e have "w' \<noteq> w" by simp
  then show ?thesis using w TimerFires timer_callback_effect[of w' q w]
    by (auto simp: waits_def split: option.splits)
next
  case (SignalFires sid)
  with e have ne: "signal \<noteq> Some sid" by simp
  show ?thesis
  proof (cases "sid \<in> set (fired q)")
    case True
    then show ?thesis using w SignalFires by simp
  next
    case False
    let ?q0 = "q\<lparr>fired := fired q @ [sid]\<rparr>"
    let ?ws = "filter (\<lambda>w. c_signal (calls q ! w) = Some sid) [0..<length (calls q)]"
    have len: "w < length (calls ?q0)" using w by (simp add: waits_def)
    have nin: "w \<notin> set ?ws" using w ne by (auto simp: waits_def)
    from fold_abort_effect[OF len, of ?ws] nin
    have "length (calls (fold abort_callback ?ws ?q0)) = length (calls q)"
      "fired (fold abort_callback ?ws ?q0) = fired q @ [sid]"
      "w \<in> set (listeners (fold abort_callback ?ws ?q0)) \<longleftrightarrow> w \<in> set (listeners q)"
      "calls (fold abort_callback ?ws ?q0) ! w = calls q ! w"
      by simp_all
    then show ?thesis using w False SignalFires
      by (auto simp: waits_def)
  qed
next
  case (ThenRuns w')
  have "w' \<noteq> w" if "w' < length (calls q)" "c_state (calls q ! w') = Woken"
    using that w by (auto simp: waits_def)
  then show ?thesis using w ThenRuns
    by (auto simp: waits_def then_callback_def nth_list_update split: option.splits)
qed

lemma waits_run:
  "waits w due signal q \<Longrightarrow> list_all (leaves_waiting w signal) events \<Longrightarrow>
   waits w due signal (run_events events q)"
proof (induction events arbitrary: q)
  case Nil
  then show ?case by (simp add: run_events_def)
next
  case (Cons e events)
  from Cons.prems have "waits w due signal (step e q)" by (simp add: waits_step)
  from Cons.IH[OF this] Cons.prems(2) show ?case by (simp add: run_events_def)
qed

lemma get_waits:
  "buffer q = [] \<Longrightarrow> waits (length (calls q)) (now + timeout) signal (get timeout signal now q)"
  by (simp add: get_def waits_def)

lemma fold_listener_fired: "fired (fold listener_callback ws q) = fired q"
  by (induction ws arbitrary: q) (simp_all add: listener_callback_def)

lemma fold_abort_fired: "fired (fold abort_callback ws q) = fired q"
  by (induction ws arbitrary: q) (simp_all add: abort_callback_def)

lemma unfired_step:
  "sid \<notin> set (fired q) \<Longrightarrow> e \<noteq> SignalFires sid \<Longrightarrow> sid \<notin> set (fired (step e q))"
  by (cases e)
     (auto simp: push_def get_def timer_callback_def then_callback_def fold_listener_fired
        fold_abort_fired split: list.splits)

lemma unfired_run:
  "sid \<notin> set (fired q) \<Longrightarrow> list_all (leaves_waiting w (Some sid)) events \<Longrightarrow>
   sid \<notin> set (fired (run_events events q))"
proof (induction events arbitrary: q)
  case Nil
  then show ?case by (simp add: run_events_def)
next
  case (Cons e events)
  from Cons.prems have "e \<noteq> SignalFires sid" by auto
  from unfired_step[OF Cons.prems(1) this] Cons.IH Cons.prems(2)
  show ?case by (simp add: run_events_def)
qed

lemma waits_timer_early:
  "waits w due signal q \<Longrightarrow> now < due \<Longrightarrow> step (TimerFires w now) q = q"
  by (simp add: waits_def)

lemma waits_timer_due:
  assumes "waits w due signal q" and "due \<le> now"
  shows "c_state (calls (step (TimerFires w now) q) ! w) = Failed TimeoutError \<and>
         w \<notin> set (listeners (step (TimerFires w now) q))"
  using assms timer_callback_effect[of w q w]
  by (auto simp: waits_def reject_def)

lemma waits_signal:
  assumes "waits w due (Some sid) q" and "sid \<notin> set (fired q)"
  shows "c_state (calls (step (SignalFires sid) q) ! w) = Failed AbortError \<and>
         c_timer (calls (step (SignalFires sid) q) ! w) = None \<and>
         w \<notin> set (listeners (step (SignalFires sid) q))"
proof -
  let ?q0 = "q\<lparr>fired := fired q @ [sid]\<rparr>"
  let ?ws = "filter (\<lambda>w. c_signal (calls q ! w) = Some sid) [0..<length (calls q)]"
  from assms have len: "w < length (calls ?q0)" and nf: "sid \<notin> set (fired q)"
    and st: "c_state (calls ?q0 ! w) = Waiting" and mem: "w \<in> set ?ws"
    by (auto simp: waits_def)
  from fold_abort_effect[OF len, of ?ws] mem st
  have "c_state (calls (fold abort_callback ?ws ?q0) ! w) = Failed AbortError"
    "c_timer (calls (fold abort_callback ?ws ?q0) ! w) = None"
    "w \<notin> set (listeners (fold abort_callback ?ws ?q0))"
    by simp_all
  then show ?thesis using nf by simp
qed

text \<open>
  Claim C6. On a new queue with a single subscriber, whatever the pushes, calls,
  timers, signals and \<^verbatim>\<open>then\<close> callbacks that happen: the messages the calls of
  \<^verbatim>\<open>get\<close> have returned, in call order, followed by the buffer, are the messages pushed,
  in push order; and no call returns \<^verbatim>\<open>undefined\<close>. And for a call of \<^verbatim>\<open>get\<close> at time
  \<open>now\<close> that finds the buffer empty: as long as no message arrives and neither its
  timer nor its signal fires, the call waits with its listener registered; its timer does
  not fire before \<open>now + timeout\<close>; when the timer fires, from \<open>now + timeout\<close> on,
  the call fails with \<open>TimeoutError\<close> and its listener is gone; when its signal (not
  fired before the call) fires, the call fails with \<open>AbortError\<close> and its listener is
  gone.
\<close>

theorem queue_fifo_timeout_cancel:
  "(single_subscriber events empty_queue \<longrightarrow>
      returned (calls (run_events events empty_queue)) @ buffer (run_events events empty_queue)
        = pushed events \<and>
      list_all (\<lambda>c. c_state c \<noteq> Returned None) (calls (run_events events empty_queue))) \<and>
   (buffer q = [] \<and> w = length (calls q) \<and> list_all (leaves_waiting w signal) quiet \<and>
    q1 = run_events quiet (get timeout signal now q) \<longrightarrow>
      c_state (calls q1 ! w) = Waiting \<and> w \<in> set (listeners q1) \<and>
      (\<forall>t. t < now + timeout \<longrightarrow> step (TimerFires w t) q1 = q1) \<and>
      (\<forall>t. now + timeout \<le> t \<longrightarrow>
         c_state (calls (step (TimerFires w t) q1) ! w) = Failed TimeoutError \<and>
         w \<notin> set (listeners (step (TimerFires w t) q1))) \<and>
      (\<forall>sid. signal = Some sid \<and> sid \<notin> set (fired q) \<longrightarrow>
         c_state (calls (step (SignalFires sid) q1) ! w) = Failed AbortError \<and>
         w \<notin> set (listeners (step (SignalFires sid) q1))))"
proof (intro conjI impI)
  assume s: "single_subscriber events empty_queue"
  from single_subscriber_fifo[OF inv_empty_queue s]
  have inv: "queue_inv (run_events events empty_queue)"
    and eq: "returned (calls (run_events events empty_queue)) @ buffer (run_events events empty_queue)
             = returned (calls empty_queue) @ buffer empty_queue @ pushed events"
    by simp_all
  show "returned (calls (run_events events empty_queue)) @ buffer (run_events events empty_queue)
        = pushed events"
    using eq by (simp add: empty_queue_def)
  show "list_all (\<lambda>c. c_state c \<noteq> Returned None) (calls (run_events events empty_queue))"
    using inv by (simp add: queue_inv_def)
next
  assume h: "buffer q = [] \<and> w = length (calls q) \<and> list_all (leaves_waiting w signal) quiet \<and>
    q1 = run_events quiet (get timeout signal now q)"
  then have "waits w (now + timeout) signal (get timeout signal now q)"
    using get_waits[of q now timeout signal] by simp
  with h have wq: "waits w (now + timeout) signal q1"
    using waits_run by blast
  show "c_state (calls q1 ! w) = Waiting" using wq by (simp add: waits_def)
  show "w \<in> set (listeners q1)" using wq by (simp add: waits_def)
  show "\<forall>t. t < now + timeout \<longrightarrow> step (TimerFires w t) q1 = q1"
    using waits_timer_early[OF wq] by blast
  show "\<forall>t. now + timeout \<le> t \<longrightarrow>
         c_state (calls (step (TimerFires w t) q1) ! w) = Failed TimeoutError \<and>
         w \<notin> set (listeners (step (TimerFires w t) q1))"
    using waits_timer_due[OF wq] by blast
  show "\<forall>sid. signal = Some sid \<and> sid \<notin> set (fired q) \<longrightarrow>
         c_state (calls (step (SignalFires sid) q1) ! w) = Failed AbortError \<and>
         w \<notin> set (listeners (step (SignalFires sid) q1))"
  proof (intro allI impI)
    fix sid
    assume a: "signal = Some sid \<and> sid \<notin> set (fired q)"
    then have "sid \<notin> set (fired (get timeout signal now q))"
      by (cases "buffer q") (simp_all add: get_def)
    with h a have "sid \<notin> set (fired q1)" using unfired_run by blast
    with wq a waits_signal[of w "now + timeout" sid q1]
    show "c_state (calls (step (SignalFires sid) q1) ! w) = Failed AbortError \<and>
         w \<notin> set (listeners (step (SignalFires sid) q1))" by simp
  qed
qed

theorem queue_fifo_timeout_cancel_witness:
  "single_subscriber demo_events empty_queue \<and>
   returned (calls (run_events demo_events empty_queue))
     = [demo_message ''one'', demo_message ''two'', demo_message ''three''] \<and>
   map c_state (calls (step (TimerFires 0 510) (get 500 (Some 7) 10 empty_queue)))
     = [Failed TimeoutError] \<and>
   listeners (step (TimerFires 0 510) (get 500 (Some 7) 10 empty_queue)) = [] \<and>
   map c_state (calls (step (SignalFires 7) (get 500 (Some 7) 10 empty_queue)))
     = [Failed AbortError] \<and>
   listeners (step (SignalFires 7) (get 500 (Some 7) 10 empty_queue)) = []"
  using queue_fifo_timeout_cancel
    [of demo_events empty_queue 0 "Some 7" "[]" "get 500 (Some 7) 10 empty_queue" 500 10]
  by (simp add: demo_events_def demo_message_def run_events_def empty_queue_def get_def push_def
      then_callback_def listener_callback_def timer_callback_def abort_callback_def
      resolve_def reject_def outstanding_def)

end
